theory Spec2Isabelle
  imports Main "HOL-Library.AList"
begin

section \<open>The raw specification document\<close>

text \<open>
  Modelled from the spec: the schema document that \<open>jsonschema.validate\<close> checks the
  raw document against is not part of the sources. The records below give the raw
  document the shape of the input contract: an attribute-set declaration has a name and a
  list of attribute entries, an attribute entry has a name, the operations block has a
  list of operation entries, an operation entry has a name. A key that the code tests
  with \<open>in\<close> or reads with \<open>get\<close> is an \<open>option\<close> field (\<open>None\<close>: the key is
  absent). Only the keys that the code reads are kept.
\<close>

record attr_yaml =
  ay_name :: string
  ay_value :: "int option"
  ay_multi_attr :: "bool option"

record attrset_yaml =
  sy_name :: string
  sy_subset_of :: "string option"
  sy_attributes :: "attr_yaml list"

text \<open>The \<open>request\<close> or \<open>reply\<close> node of a call, and the \<open>do\<close> or \<open>dump\<close> node.\<close>

record msg_yaml =
  my_value :: "int option"

record mode_yaml =
  request :: "msg_yaml option"
  reply :: "msg_yaml option"

record op_yaml =
  oy_name :: string
  oy_value :: "int option"
  oy_attribute_set :: "string option"
  oy_do :: "mode_yaml option"
  oy_dump :: "mode_yaml option"
  oy_notify :: "string option"
  oy_event :: "unit option"

record operations_yaml =
  enum_model :: "string option"
  ops_list :: "op_yaml list"

record family_yaml =
  fy_name :: string
  fy_protocol :: "string option"
  attribute_sets :: "attrset_yaml list"
  operations :: operations_yaml

section \<open>Exceptions\<close>

text \<open>
  The exceptions that the module raises. The resolution loop catches \<open>KeyError\<close> and
  \<open>AttributeError\<close> and lets every other exception through.
\<close>

datatype exn = KeyError string | AttributeError string | Exception string

fun is_deferred :: "exn \<Rightarrow> bool" where
  "is_deferred (KeyError k) = True"
| "is_deferred (AttributeError k) = True"
| "is_deferred (Exception m) = False"

text \<open>How a statement sequence ends: normally, or by raising.\<close>

datatype completion = Normal | Raised exn

section \<open>The objects of the model\<close>

text \<open>
  The back references \<open>family\<close> and \<open>attr_set\<close> of the Python objects are not
  represented: the family is the state that every function below takes and returns.
\<close>

record SpecAttr =
  attr_yaml :: attr_yaml
  attr_name :: string
  attr_ident_name :: string
  attr_value :: int
  is_multi :: bool

record SpecAttrSet =
  set_yaml :: attrset_yaml
  set_name :: string
  set_ident_name :: string
  subset_of :: "string option"
  attrs :: "(string \<times> SpecAttr) list"
  attrs_by_val :: "(int \<times> SpecAttr) list"

text \<open>
  \<open>req_value\<close>, \<open>rsp_value\<close> and \<open>op_value\<close> are \<open>None\<close> for Python's \<open>None\<close>;
  \<open>attr_set\<close> is \<open>None\<close> as long as the attribute does not exist on the object.
\<close>

record SpecOperation =
  op_yaml :: op_yaml
  op_name :: string
  op_ident_name :: string
  op_super_resolved :: bool
  op_value :: "int option"
  req_value :: "int option"
  rsp_value :: "int option"
  is_call :: bool
  is_async :: bool
  is_resv :: bool
  attr_set :: "SpecAttrSet option"

text \<open>
  An element of the resolution list. Operations are the only elements that \<open>resolve\<close>
  changes, and the same operation object is reachable from several dictionaries, so an
  operation is a reference into the store \<open>op_objs\<close> of the family. An attribute is
  complete when it registers; an attribute set registers before its attributes are
  built, so it stands in the list with its raw node.
\<close>

datatype elem = ElFamily | ElAttrSet attrset_yaml | ElAttr SpecAttr | ElOp nat

text \<open>
  The ordered dictionaries are association lists: \<open>map_of\<close> looks a key up and
  \<open>AList.update\<close> stores a value, in place for a key that is present and at the end
  for a new one, as Python's dictionaries do.
\<close>

record SpecFamily =
  yaml :: family_yaml
  name :: string
  ident_name :: string
  super_resolved :: bool
  resolution_list :: "elem list"
  proto :: string
  attr_sets :: "(string \<times> SpecAttrSet) list"
  msgs :: "(string \<times> nat) list"
  req_by_value :: "(int \<times> nat) list"
  rsp_by_value :: "(int \<times> nat) list"
  ops :: "(string \<times> nat) list"
  op_objs :: "SpecOperation list"

section \<open>SpecElement\<close>

definition ident :: "string \<Rightarrow> string" where
  "ident n = map (\<lambda>c. if c = CHR ''-'' then CHR ''_'' else c) n"

definition add_unresolved :: "elem \<Rightarrow> SpecFamily \<Rightarrow> SpecFamily" where
  "add_unresolved e f = f\<lparr>resolution_list := resolution_list f @ [e]\<rparr>"

section \<open>SpecAttr and SpecAttrSet\<close>

text \<open>The fields that \<open>SpecAttr.__init__\<close> sets.\<close>

definition SpecAttr_init :: "attr_yaml \<Rightarrow> int \<Rightarrow> SpecAttr" where
  "SpecAttr_init elem v =
     \<lparr>attr_yaml = elem, attr_name = ay_name elem,
      attr_ident_name = ident (ay_name elem), attr_value = v,
      is_multi = (case ay_multi_attr elem of None \<Rightarrow> False | Some b \<Rightarrow> b)\<rparr>"

definition new_attr :: "attr_yaml \<Rightarrow> int \<Rightarrow> SpecFamily \<Rightarrow> SpecAttr \<times> SpecFamily" where
  "new_attr elem v f =
     (let a = SpecAttr_init elem v in (a, add_unresolved (ElAttr a) f))"

text \<open>The loop of \<open>SpecAttrSet.__init__\<close> over the attribute entries, \<open>val\<close> its counter.\<close>

fun attrs_loop ::
  "attr_yaml list \<Rightarrow> int \<Rightarrow> SpecAttrSet \<Rightarrow> SpecFamily \<Rightarrow> SpecAttrSet \<times> SpecFamily" where
  "attrs_loop [] val s f = (s, f)"
| "attrs_loop (elem # rest) val s f =
     (let val = (case ay_value elem of Some v \<Rightarrow> v | None \<Rightarrow> val);
          (attr, f) = new_attr elem val f;
          s = s\<lparr>attrs := AList.update (attr_name attr) attr (attrs s)\<rparr>;
          s = s\<lparr>attrs_by_val := AList.update (attr_value attr) attr (attrs_by_val s)\<rparr>
      in attrs_loop rest (val + 1) s f)"

definition new_attr_set :: "attrset_yaml \<Rightarrow> SpecFamily \<Rightarrow> SpecAttrSet \<times> SpecFamily" where
  "new_attr_set elem f =
     (let f = add_unresolved (ElAttrSet elem) f;
          s = \<lparr>set_yaml = elem, set_name = sy_name elem,
                set_ident_name = ident (sy_name elem),
                subset_of = sy_subset_of elem, attrs = [], attrs_by_val = []\<rparr>
      in attrs_loop (sy_attributes elem) 0 s f)"

section \<open>SpecOperation\<close>

text \<open>
  The fields that \<open>SpecOperation.__init__\<close> sets. \<open>attr_set\<close> is assigned and
  deleted again, so the object starts without it.
\<close>

definition SpecOperation_init :: "op_yaml \<Rightarrow> int option \<Rightarrow> int option \<Rightarrow> SpecOperation" where
  "SpecOperation_init elem req rsp =
     (let call = (oy_do elem \<noteq> None \<or> oy_dump elem \<noteq> None);
          async = (oy_notify elem \<noteq> None \<or> oy_event elem \<noteq> None)
      in \<lparr>op_yaml = elem, op_name = oy_name elem,
          op_ident_name = ident (oy_name elem), op_super_resolved = False,
          op_value = (if req = rsp then req else None),
          req_value = req, rsp_value = rsp,
          is_call = call, is_async = async,
          is_resv = (\<not> async \<and> \<not> call),
          attr_set = None\<rparr>)"

text \<open>
  \<open>new_operation\<close> allocates the object at the next free address of the store; the
  constructor registers it in the resolution list.
\<close>

definition new_operation ::
  "op_yaml \<Rightarrow> int option \<Rightarrow> int option \<Rightarrow> SpecFamily \<Rightarrow> nat \<times> SpecFamily" where
  "new_operation elem req rsp f =
     (let a = length (op_objs f);
          op = SpecOperation_init elem req rsp
      in (a, add_unresolved (ElOp a) (f\<lparr>op_objs := op_objs f @ [op]\<rparr>)))"

text \<open>
  The name of the attribute set of an operation, as the first half of
  \<open>SpecOperation.resolve\<close> finds it, or the exception raised on the way.
\<close>

definition attr_set_name_of :: "SpecOperation \<Rightarrow> SpecFamily \<Rightarrow> exn + string" where
  "attr_set_name_of self f =
     (case oy_attribute_set (op_yaml self) of
        Some n \<Rightarrow> Inr n
      | None \<Rightarrow>
         (case oy_notify (op_yaml self) of
            Some t \<Rightarrow>
              (case map_of (msgs f) t of
                 None \<Rightarrow> Inl (KeyError t)
               | Some m \<Rightarrow>
                  (case oy_attribute_set (op_yaml (op_objs f ! m)) of
                     None \<Rightarrow> Inl (KeyError ''attribute-set'')
                   | Some n \<Rightarrow> Inr n))
          | None \<Rightarrow>
              if is_resv self then Inr ''''
              else Inl (Exception
                (''Can't resolve attribute set for op '' @ [CHR 0x27] @ op_name self
                   @ [CHR 0x27]))))"

text \<open>
  \<open>resolve_up\<close> of an operation: the inherited \<open>resolve\<close> is empty, so the call
  sets the flag \<open>_super_resolved\<close> the first time and does nothing afterwards.
\<close>

definition resolve_up :: "nat \<Rightarrow> SpecFamily \<Rightarrow> SpecFamily" where
  "resolve_up a f =
     (if \<not> op_super_resolved (op_objs f ! a)
      then f\<lparr>op_objs := (op_objs f)[a := (op_objs f ! a)\<lparr>op_super_resolved := True\<rparr>]\<rparr>
      else f)"

definition SpecOperation_resolve :: "nat \<Rightarrow> SpecFamily \<Rightarrow> completion \<times> SpecFamily" where
  "SpecOperation_resolve a f =
     (let f = resolve_up a f;
          self = op_objs f ! a
      in case attr_set_name_of self f of
           Inl e \<Rightarrow> (Raised e, f)
         | Inr attr_set_name \<Rightarrow>
             if attr_set_name \<noteq> [] then
               (case map_of (attr_sets f) attr_set_name of
                  None \<Rightarrow> (Raised (KeyError attr_set_name), f)
                | Some s \<Rightarrow>
                    (Normal, f\<lparr>op_objs := (op_objs f)[a := self\<lparr>attr_set := Some s\<rparr>]\<rparr>))
             else (Normal, f))"

section \<open>SpecFamily\<close>

fun dictify_ops_unified_loop :: "op_yaml list \<Rightarrow> int \<Rightarrow> SpecFamily \<Rightarrow> SpecFamily" where
  "dictify_ops_unified_loop [] val f = f"
| "dictify_ops_unified_loop (elem # rest) val f =
     (let val = (case oy_value elem of Some v \<Rightarrow> v | None \<Rightarrow> val);
          (op, f) = new_operation elem (Some val) (Some val) f;
          val = val + 1;
          f = f\<lparr>msgs := AList.update (op_name (op_objs f ! op)) op (msgs f)\<rparr>
      in dictify_ops_unified_loop rest val f)"

definition dictify_ops_unified :: "SpecFamily \<Rightarrow> SpecFamily" where
  "dictify_ops_unified f = dictify_ops_unified_loop (ops_list (operations (yaml f))) 0 f"

text \<open>
  Python's truth test \<open>if v:\<close> on the result of \<open>get('value', None)\<close>: false for
  \<open>None\<close> and for \<open>0\<close>.
\<close>

definition truthy :: "int option \<Rightarrow> bool" where
  "truthy v = (case v of None \<Rightarrow> False | Some x \<Rightarrow> x \<noteq> 0)"

text \<open>\<open>mode.get(key, {}).get('value', None)\<close> for the node under \<open>key\<close>.\<close>

definition get_value :: "msg_yaml option \<Rightarrow> int option" where
  "get_value node = (case node of None \<Rightarrow> None | Some m \<Rightarrow> my_value m)"

text \<open>
  The loop of \<open>_dictify_ops_directional\<close>. The two counters are integers at the head
  of every iteration: \<open>req_val\<close> is \<open>None\<close> only between the notification branch and
  the end of the same iteration, where it takes the value of \<open>req_val_next\<close>. The
  test \<open>'do' in elem or 'dump' in elem\<close> and the choice of \<open>mode\<close> are one case
  distinction.
\<close>

fun dictify_ops_directional_loop ::
  "op_yaml list \<Rightarrow> int \<Rightarrow> int \<Rightarrow> SpecFamily \<Rightarrow> completion \<times> SpecFamily" where
  "dictify_ops_directional_loop [] req_val rsp_val f = (Normal, f)"
| "dictify_ops_directional_loop (elem # rest) req_val rsp_val f =
     (if oy_notify elem \<noteq> None then
        (let rsp_val = (case oy_value elem of Some v \<Rightarrow> v | None \<Rightarrow> rsp_val);
             req_val_next = req_val;
             rsp_val_next = rsp_val + 1;
             (op, f) = new_operation elem None (Some rsp_val) f;
             f = f\<lparr>msgs := AList.update (op_name (op_objs f ! op)) op (msgs f)\<rparr>
         in dictify_ops_directional_loop rest req_val_next rsp_val_next f)
      else
        (case (case oy_do elem of Some m \<Rightarrow> Some m | None \<Rightarrow> oy_dump elem) of
           Some mode \<Rightarrow>
             (let v = get_value (request mode);
                  req_val = (if truthy v then the v else req_val);
                  v = get_value (reply mode);
                  rsp_val = (if truthy v then the v else rsp_val);
                  rsp_inc = (if reply mode \<noteq> None then 1 else 0);
                  req_val_next = req_val + 1;
                  rsp_val_next = rsp_val + rsp_inc;
                  (op, f) = new_operation elem (Some req_val) (Some rsp_val) f;
                  f = f\<lparr>msgs := AList.update (op_name (op_objs f ! op)) op (msgs f)\<rparr>
              in dictify_ops_directional_loop rest req_val_next rsp_val_next f)
         | None \<Rightarrow> (Raised (Exception ''Can't parse directional ops''), f)))"

definition dictify_ops_directional :: "SpecFamily \<Rightarrow> completion \<times> SpecFamily" where
  "dictify_ops_directional f =
     dictify_ops_directional_loop (ops_list (operations (yaml f))) 0 0 f"

text \<open>The loop of \<open>SpecFamily.resolve\<close> over the attribute-set declarations.\<close>

fun attr_sets_loop :: "attrset_yaml list \<Rightarrow> SpecFamily \<Rightarrow> SpecFamily" where
  "attr_sets_loop [] f = f"
| "attr_sets_loop (elem # rest) f =
     (let (attr_set, f) = new_attr_set elem f;
          f = f\<lparr>attr_sets := AList.update (sy_name elem) attr_set (attr_sets f)\<rparr>
      in attr_sets_loop rest f)"

text \<open>The loop of \<open>SpecFamily.resolve\<close> over \<open>self.msgs.values()\<close>.\<close>

fun catalog_loop :: "nat list \<Rightarrow> SpecFamily \<Rightarrow> SpecFamily" where
  "catalog_loop [] f = f"
| "catalog_loop (a # rest) f =
     (let op = op_objs f ! a;
          f = (case req_value op of
                 Some v \<Rightarrow> f\<lparr>req_by_value := AList.update v a (req_by_value f)\<rparr>
               | None \<Rightarrow> f);
          f = (case rsp_value op of
                 Some v \<Rightarrow> f\<lparr>rsp_by_value := AList.update v a (rsp_by_value f)\<rparr>
               | None \<Rightarrow> f);
          f = (if \<not> is_async op \<and> oy_attribute_set (op_yaml op) \<noteq> None
               then f\<lparr>ops := AList.update (op_name op) a (ops f)\<rparr> else f)
      in catalog_loop rest f)"

text \<open>\<open>resolve_up\<close> of the family itself.\<close>

definition resolve_up_family :: "SpecFamily \<Rightarrow> SpecFamily" where
  "resolve_up_family f = (if \<not> super_resolved f then f\<lparr>super_resolved := True\<rparr> else f)"

definition SpecFamily_resolve :: "SpecFamily \<Rightarrow> completion \<times> SpecFamily" where
  "SpecFamily_resolve f =
     (let f = resolve_up_family f;
          f = attr_sets_loop (attribute_sets (yaml f)) f;
          msg_id_model = (case enum_model (operations (yaml f)) of
                            None \<Rightarrow> ''unified'' | Some m \<Rightarrow> m);
          (c, f) = (if msg_id_model = ''unified'' then (Normal, dictify_ops_unified f)
                    else if msg_id_model = ''directional'' then dictify_ops_directional f
                    else (Normal, f))
      in case c of
           Raised e \<Rightarrow> (Raised e, f)
         | Normal \<Rightarrow> (Normal, catalog_loop (map snd (msgs f)) f))"

section \<open>The resolution engine\<close>

text \<open>\<open>elem.resolve()\<close>: attributes and attribute sets inherit the empty method.\<close>

fun elem_resolve :: "elem \<Rightarrow> SpecFamily \<Rightarrow> completion \<times> SpecFamily" where
  "elem_resolve ElFamily f = SpecFamily_resolve f"
| "elem_resolve (ElAttrSet y) f = (Normal, f)"
| "elem_resolve (ElAttr a) f = (Normal, f)"
| "elem_resolve (ElOp a) f = SpecOperation_resolve a f"

text \<open>
  The \<open>for\<close> loop of one pass: the elements still to visit, the list \<open>resolved\<close>,
  \<open>last_exception\<close> and the family. \<open>Inl\<close> is an exception that the \<open>except\<close>
  clause does not catch.
\<close>

fun resolve_elems ::
  "elem list \<Rightarrow> elem list \<Rightarrow> exn option \<Rightarrow> SpecFamily
     \<Rightarrow> exn + (elem list \<times> exn option \<times> SpecFamily)" where
  "resolve_elems [] resolved last_exception f = Inr (resolved, last_exception, f)"
| "resolve_elems (elem # rest) resolved last_exception f =
     (case elem_resolve elem f of
        (Raised e, f) \<Rightarrow>
          if is_deferred e
          then resolve_elems rest resolved (Some e) (add_unresolved elem f)
          else Inl e
      | (Normal, f) \<Rightarrow> resolve_elems rest (resolved @ [elem]) last_exception f)"

text \<open>
  How a load fails: an exception that passes through the loop, or the exception raised
  by the loop itself after it has printed \<open>last_exception\<close>.
\<close>

datatype load_error = Propagated exn | Deadlock "exn option"

text \<open>
  The \<open>while\<close> loop. The first argument bounds the number of passes: \<open>None\<close> says
  that the loop needs more passes than that.
\<close>

fun resolution_loop ::
  "nat \<Rightarrow> exn option \<Rightarrow> SpecFamily \<Rightarrow> (load_error + SpecFamily) option" where
  "resolution_loop 0 last_exception f =
     (if resolution_list f = [] then Some (Inr f) else None)"
| "resolution_loop (Suc n) last_exception f =
     (if resolution_list f = [] then Some (Inr f)
      else
        (case resolve_elems (resolution_list f) [] last_exception
                (f\<lparr>resolution_list := []\<rparr>) of
           Inl e \<Rightarrow> Some (Inl (Propagated e))
         | Inr (resolved, last_exception, f) \<Rightarrow>
             if resolved = [] then Some (Inl (Deadlock last_exception))
             else resolution_loop n last_exception f))"

text \<open>The family as \<open>SpecFamily.__init__\<close> has it when the loop starts.\<close>

definition init_family :: "family_yaml \<Rightarrow> SpecFamily" where
  "init_family spec =
     \<lparr>yaml = spec, name = fy_name spec, ident_name = ident (fy_name spec),
      super_resolved = False, resolution_list = [ElFamily],
      proto = (case fy_protocol spec of None \<Rightarrow> ''genetlink'' | Some p \<Rightarrow> p),
      attr_sets = [], msgs = [], req_by_value = [], rsp_by_value = [], ops = [],
      op_objs = []\<rparr>"

definition SpecFamily_init :: "nat \<Rightarrow> family_yaml \<Rightarrow> (load_error + SpecFamily) option" where
  "SpecFamily_init passes spec = resolution_loop passes None (init_family spec)"

section \<open>Auxiliary definitions\<close>

text \<open>Exactly one of three flags holds.\<close>

definition exactly_one :: "bool \<Rightarrow> bool \<Rightarrow> bool \<Rightarrow> bool" where
  "exactly_one a b c = ((a \<and> \<not> b \<and> \<not> c) \<or> (\<not> a \<and> b \<and> \<not> c) \<or> (\<not> a \<and> \<not> b \<and> c))"

text \<open>
  The running counter in the words of the specification: an entry with an explicit value
  takes that value, any other entry takes the counter, and the counter goes on from the
  value taken plus one. The argument lists the explicit values of the entries.
\<close>

fun counter_values :: "int \<Rightarrow> int option list \<Rightarrow> int list" where
  "counter_values c [] = []"
| "counter_values c (x # xs) =
     (let v = (case x of Some e \<Rightarrow> e | None \<Rightarrow> c) in v # counter_values (v + 1) xs)"

text \<open>
  The attributes, the attribute set and the registered elements that the constructor of
  an attribute set produces, written without the family state.
\<close>

definition built_attrs :: "int \<Rightarrow> attr_yaml list \<Rightarrow> SpecAttr list" where
  "built_attrs c es = map2 SpecAttr_init es (counter_values c (map ay_value es))"

definition built_set :: "attrset_yaml \<Rightarrow> SpecAttrSet" where
  "built_set elem =
     \<lparr>set_yaml = elem, set_name = sy_name elem, set_ident_name = ident (sy_name elem),
      subset_of = sy_subset_of elem,
      attrs = fold (\<lambda>a. AList.update (attr_name a) a) (built_attrs 0 (sy_attributes elem)) [],
      attrs_by_val = fold (\<lambda>a. AList.update (attr_value a) a) (built_attrs 0 (sy_attributes elem)) []\<rparr>"

definition set_elems :: "attrset_yaml \<Rightarrow> elem list" where
  "set_elems elem = ElAttrSet elem # map ElAttr (built_attrs 0 (sy_attributes elem))"

text \<open>
  The effect of constructing the operations of the entries \<open>es\<close> with the identifier
  pairs \<open>vs\<close>: the objects are appended to the store, their addresses to the
  resolution list, and \<open>msgs\<close> takes each name in turn.
\<close>

definition register_ops ::
  "op_yaml list \<Rightarrow> (int option \<times> int option) list \<Rightarrow> SpecFamily \<Rightarrow> SpecFamily" where
  "register_ops es vs f =
     f\<lparr>op_objs := op_objs f @ map2 (\<lambda>e (r, s). SpecOperation_init e r s) es vs,
       resolution_list := resolution_list f
          @ map ElOp [length (op_objs f)..<length (op_objs f) + length es],
       msgs := fold (\<lambda>(e, a). AList.update (oy_name e) a)
                 (zip es [length (op_objs f)..<length (op_objs f) + length es]) (msgs f)\<rparr>"

text \<open>
  The \<open>mode\<close> node of a call entry, whether the directional policy can classify an
  entry, and the identifier pairs that the directional loop hands out from the counters
  \<open>rq\<close> and \<open>rs\<close>.
\<close>

definition call_mode :: "op_yaml \<Rightarrow> mode_yaml option" where
  "call_mode e = (case oy_do e of Some m \<Rightarrow> Some m | None \<Rightarrow> oy_dump e)"

definition classifiable :: "op_yaml \<Rightarrow> bool" where
  "classifiable e = (oy_notify e \<noteq> None \<or> call_mode e \<noteq> None)"

fun directional_values :: "op_yaml list \<Rightarrow> int \<Rightarrow> int \<Rightarrow> (int option \<times> int option) list" where
  "directional_values [] rq rs = []"
| "directional_values (e # es) rq rs =
     (if oy_notify e \<noteq> None then
        (let rs = (case oy_value e of Some v \<Rightarrow> v | None \<Rightarrow> rs)
         in (None, Some rs) # directional_values es rq (rs + 1))
      else
        (case call_mode e of
           Some mode \<Rightarrow>
             (let rq = (if truthy (get_value (request mode)) then the (get_value (request mode)) else rq);
                  rs = (if truthy (get_value (reply mode)) then the (get_value (reply mode)) else rs)
              in (Some rq, Some rs) #
                 directional_values es (rq + 1) (rs + (if reply mode \<noteq> None then 1 else 0)))
         | None \<Rightarrow> []))"

text \<open>One iteration of the loop over \<open>msgs.values()\<close>, dictionary by dictionary.\<close>

definition catalog_step_ops :: "SpecOperation list \<Rightarrow> nat \<Rightarrow> (string \<times> nat) list \<Rightarrow> (string \<times> nat) list" where
  "catalog_step_ops os a l =
     (if \<not> is_async (os ! a) \<and> oy_attribute_set (op_yaml (os ! a)) \<noteq> None
      then AList.update (op_name (os ! a)) a l else l)"

definition catalog_step_req :: "SpecOperation list \<Rightarrow> nat \<Rightarrow> (int \<times> nat) list \<Rightarrow> (int \<times> nat) list" where
  "catalog_step_req os a l =
     (case req_value (os ! a) of Some v \<Rightarrow> AList.update v a l | None \<Rightarrow> l)"

definition catalog_step_rsp :: "SpecOperation list \<Rightarrow> nat \<Rightarrow> (int \<times> nat) list \<Rightarrow> (int \<times> nat) list" where
  "catalog_step_rsp os a l =
     (case rsp_value (os ! a) of Some v \<Rightarrow> AList.update v a l | None \<Rightarrow> l)"

definition catalog_step :: "nat \<Rightarrow> SpecFamily \<Rightarrow> SpecFamily" where
  "catalog_step a f =
     f\<lparr>req_by_value := catalog_step_req (op_objs f) a (req_by_value f),
       rsp_by_value := catalog_step_rsp (op_objs f) a (rsp_by_value f),
       ops := catalog_step_ops (op_objs f) a (ops f)\<rparr>"

text \<open>
  The entries that the selected policy constructs (none under an unknown selector), the
  identifier pairs it gives them, whether the directional policy accepts the list, and the
  family after the constructions of \<open>SpecFamily.resolve\<close>.
\<close>

definition registered_ops :: "operations_yaml \<Rightarrow> op_yaml list" where
  "registered_ops b =
     (let m = (case enum_model b of None \<Rightarrow> ''unified'' | Some m \<Rightarrow> m)
      in if m = ''unified'' \<or> m = ''directional'' then ops_list b else [])"

definition id_values :: "operations_yaml \<Rightarrow> (int option \<times> int option) list" where
  "id_values b =
     (let m = (case enum_model b of None \<Rightarrow> ''unified'' | Some m \<Rightarrow> m)
      in if m = ''unified''
         then map (\<lambda>v. (Some v, Some v)) (counter_values 0 (map oy_value (ops_list b)))
         else if m = ''directional'' then directional_values (ops_list b) 0 0 else [])"

definition parse_ok :: "operations_yaml \<Rightarrow> bool" where
  "parse_ok b = (enum_model b = Some ''directional'' \<longrightarrow> list_all classifiable (ops_list b))"

definition family_built :: "SpecFamily \<Rightarrow> SpecFamily" where
  "family_built f =
     register_ops (registered_ops (operations (yaml f))) (id_values (operations (yaml f)))
       (attr_sets_loop (attribute_sets (yaml f)) (resolve_up_family f))"

text \<open>
  Two families have the same frame when they differ at most in the resolution list and in
  the two fields of an operation that \<open>SpecOperation.resolve\<close> writes.
\<close>

definition op_frame :: "SpecOperation \<Rightarrow> SpecOperation" where
  "op_frame o' = o'\<lparr>op_super_resolved := False, attr_set := None\<rparr>"

definition same_frame :: "SpecFamily \<Rightarrow> SpecFamily \<Rightarrow> bool" where
  "same_frame f g \<longleftrightarrow>
     f\<lparr>resolution_list := [], op_objs := []\<rparr> = g\<lparr>resolution_list := [], op_objs := []\<rparr>
     \<and> length (op_objs f) = length (op_objs g)
     \<and> (\<forall>i. op_frame (op_objs f ! i) = op_frame (op_objs g ! i))"

text \<open>
  How \<open>SpecOperation.resolve\<close> ends and which attribute set it assigns, read off the
  family without running it.
\<close>

definition resolve_outcome :: "nat \<Rightarrow> SpecFamily \<Rightarrow> completion" where
  "resolve_outcome a f =
     (case attr_set_name_of (op_objs f ! a) f of
        Inl e \<Rightarrow> Raised e
      | Inr n \<Rightarrow>
          if n \<noteq> [] then
            (case map_of (attr_sets f) n of None \<Rightarrow> Raised (KeyError n) | Some s \<Rightarrow> Normal)
          else Normal)"

definition expected_set :: "nat \<Rightarrow> SpecFamily \<Rightarrow> SpecAttrSet option" where
  "expected_set a f =
     (case attr_set_name_of (op_objs f ! a) f of
        Inl e \<Rightarrow> None
      | Inr n \<Rightarrow> if n \<noteq> [] then map_of (attr_sets f) n else None)"

text \<open>How the resolution of an element ends; deferred and fatal endings.\<close>

fun elem_outcome :: "elem \<Rightarrow> SpecFamily \<Rightarrow> completion" where
  "elem_outcome ElFamily f = fst (SpecFamily_resolve f)"
| "elem_outcome (ElAttrSet y) f = Normal"
| "elem_outcome (ElAttr a) f = Normal"
| "elem_outcome (ElOp a) f = resolve_outcome a f"

fun stuck :: "completion \<Rightarrow> bool" where
  "stuck Normal = False"
| "stuck (Raised e) = is_deferred e"

fun fatal :: "completion \<Rightarrow> bool" where
  "fatal Normal = False"
| "fatal (Raised e) = (\<not> is_deferred e)"

text \<open>The attribute set of the operation at an address is still missing, or is the one expected.\<close>

definition unset_or_resolved :: "SpecFamily \<Rightarrow> nat \<Rightarrow> bool" where
  "unset_or_resolved f b \<longleftrightarrow>
     attr_set (op_objs f ! b) = None \<or> attr_set (op_objs f ! b) = expected_set b f"

definition resolved_at :: "SpecFamily \<Rightarrow> nat \<Rightarrow> bool" where
  "resolved_at f b \<longleftrightarrow> attr_set (op_objs f ! b) = expected_set b f"

text \<open>
  The family after the first pass has run the family's own resolution step, and the number of
  elements of a document: the family and every element that this step registers.
\<close>

definition family_resolved :: "family_yaml \<Rightarrow> SpecFamily" where
  "family_resolved spec = snd (SpecFamily_resolve ((init_family spec)\<lparr>resolution_list := []\<rparr>))"

definition num_elements :: "family_yaml \<Rightarrow> nat" where
  "num_elements spec = Suc (length (resolution_list (family_resolved spec)))"

text \<open>
  The state in which the loop starts a pass: \<open>last_exception\<close> and the family after
  \<open>k\<close> passes that have each found the list non-empty, let no exception through and
  resolved an element. \<open>None\<close> when the loop ends before that.
\<close>

fun loop_state :: "nat \<Rightarrow> exn option \<Rightarrow> SpecFamily \<Rightarrow> (exn option \<times> SpecFamily) option" where
  "loop_state 0 last_exception f = Some (last_exception, f)"
| "loop_state (Suc k) last_exception f =
     (if resolution_list f = [] then None
      else
        (case resolve_elems (resolution_list f) [] last_exception
                (f\<lparr>resolution_list := []\<rparr>) of
           Inl e \<Rightarrow> None
         | Inr (resolved, last_exception, f) \<Rightarrow>
             if resolved = [] then None else loop_state k last_exception f))"

text \<open>Concrete documents.\<close>

definition op_entry :: "string \<Rightarrow> op_yaml" where
  "op_entry n = \<lparr>oy_name = n, oy_value = None, oy_attribute_set = None, oy_do = None,
                 oy_dump = None, oy_notify = None, oy_event = None\<rparr>"

definition attr_entry :: "string \<Rightarrow> attr_yaml" where
  "attr_entry n = \<lparr>ay_name = n, ay_value = None, ay_multi_attr = None\<rparr>"

definition no_reply :: mode_yaml where
  "no_reply = \<lparr>request = None, reply = None\<rparr>"

definition with_reply :: mode_yaml where
  "with_reply = \<lparr>request = None, reply = Some \<lparr>my_value = None\<rparr>\<rparr>"

definition example_set :: attrset_yaml where
  "example_set = \<lparr>sy_name = ''s'', sy_subset_of = None,
                   sy_attributes = [attr_entry ''a'', attr_entry ''b'', attr_entry ''c'']\<rparr>"

definition spec_of :: "string option \<Rightarrow> attrset_yaml list \<Rightarrow> op_yaml list \<Rightarrow> family_yaml" where
  "spec_of m ss es = \<lparr>fy_name = ''fam'', fy_protocol = None, attribute_sets = ss,
                       operations = \<lparr>enum_model = m, ops_list = es\<rparr>\<rparr>"

definition example_directional :: family_yaml where
  "example_directional = spec_of (Some ''directional'') [example_set]
     [(op_entry ''A'')\<lparr>oy_attribute_set := Some ''s'', oy_do := Some no_reply\<rparr>,
      (op_entry ''B'')\<lparr>oy_attribute_set := Some ''s'', oy_do := Some with_reply\<rparr>,
      (op_entry ''C'')\<lparr>oy_notify := Some ''B''\<rparr>]"

definition example_unified :: family_yaml where
  "example_unified = spec_of None [example_set]
     [(op_entry ''A'')\<lparr>oy_attribute_set := Some ''s'', oy_do := Some no_reply\<rparr>,
      (op_entry ''B'')\<lparr>oy_attribute_set := Some ''s'', oy_do := Some with_reply\<rparr>,
      (op_entry ''C'')\<lparr>oy_notify := Some ''B''\<rparr>]"

definition example_zero_request :: family_yaml where
  "example_zero_request = spec_of (Some ''directional'') [example_set]
     [(op_entry ''A'')\<lparr>oy_attribute_set := Some ''s'', oy_do := Some no_reply\<rparr>,
      (op_entry ''B'')\<lparr>oy_attribute_set := Some ''s'',
          oy_do := Some \<lparr>request = Some \<lparr>my_value = Some 0\<rparr>, reply = None\<rparr>\<rparr>]"

definition example_call_event :: family_yaml where
  "example_call_event = spec_of None [example_set]
     [(op_entry ''X'')\<lparr>oy_attribute_set := Some ''s'', oy_do := Some no_reply,
          oy_event := Some ()\<rparr>]"

definition example_unknown_model :: family_yaml where
  "example_unknown_model = spec_of (Some ''per-direction'') [example_set]
     [(op_entry ''A'')\<lparr>oy_attribute_set := Some ''s'', oy_do := Some no_reply\<rparr>]"

definition example_missing_target :: family_yaml where
  "example_missing_target = spec_of None [example_set]
     [(op_entry ''A'')\<lparr>oy_attribute_set := Some ''s'', oy_do := Some no_reply\<rparr>,
      (op_entry ''N'')\<lparr>oy_notify := Some ''Z''\<rparr>]"


definition example_reserved :: family_yaml where
  "example_reserved = spec_of None [example_set]
     [(op_entry ''R'')\<lparr>oy_attribute_set := Some ''s''\<rparr>,
      (op_entry ''P'')]"




definition example_unclassifiable :: family_yaml where
  "example_unclassifiable = spec_of (Some ''directional'') [example_set]
     [(op_entry ''A'')\<lparr>oy_attribute_set := Some ''s'', oy_do := Some no_reply\<rparr>,
      (op_entry ''P'')]"

definition example_reused_name :: family_yaml where
  "example_reused_name = spec_of None [example_set]
     [(op_entry ''R'')\<lparr>oy_attribute_set := Some ''s''\<rparr>,
      (op_entry ''R'')\<lparr>oy_attribute_set := Some ''s'', oy_event := Some ()\<rparr>]"

section \<open>The constructors in closed form\<close>

lemma counter_values_length [simp]: "length (counter_values c xs) = length xs"
  by (induction xs arbitrary: c) (simp_all add: Let_def)

lemma counter_values_none:
  "\<forall>x\<in>set xs. x = None \<Longrightarrow> counter_values c xs = map (\<lambda>i. c + int i) [0..<length xs]"
proof (induction xs arbitrary: c)
  case Nil
  then show ?case by simp
next
  case (Cons x xs)
  have "map (\<lambda>i. c + int i) [0..<Suc (length xs)] = c # map (\<lambda>i. c + 1 + int i) [0..<length xs]"
    by (simp add: upt_conv_Cons map_Suc_upt[symmetric] del: upt_Suc)
  with Cons show ?case by simp
qed

lemma new_attr_eq: "new_attr elem v f = (SpecAttr_init elem v, f\<lparr>resolution_list := resolution_list f @ [ElAttr (SpecAttr_init elem v)]\<rparr>)"
  by (simp add: new_attr_def add_unresolved_def Let_def)

lemma attrs_loop_eq:
  "attrs_loop es c s f =
     (s\<lparr>attrs := fold (\<lambda>a. AList.update (attr_name a) a) (built_attrs c es) (attrs s),
        attrs_by_val := fold (\<lambda>a. AList.update (attr_value a) a) (built_attrs c es) (attrs_by_val s)\<rparr>,
      f\<lparr>resolution_list := resolution_list f @ map ElAttr (built_attrs c es)\<rparr>)"
proof (induction es arbitrary: c s f)
  case Nil
  then show ?case by (simp add: built_attrs_def)
next
  case (Cons e es)
  show ?case
    by (simp add: Cons.IH new_attr_eq built_attrs_def Let_def)
qed

lemma new_attr_set_eq:
  "new_attr_set elem f = (built_set elem, f\<lparr>resolution_list := resolution_list f @ set_elems elem\<rparr>)"
  by (simp add: new_attr_set_def attrs_loop_eq built_set_def set_elems_def add_unresolved_def)

lemma attr_sets_loop_eq:
  "attr_sets_loop ss f =
     f\<lparr>resolution_list := resolution_list f @ concat (map set_elems ss),
       attr_sets := fold (\<lambda>e. AList.update (sy_name e) (built_set e)) ss (attr_sets f)\<rparr>"
  by (induction ss arbitrary: f) (simp_all add: new_attr_set_eq)

lemma fold_update_fresh:
  "distinct (map fst xs @ map k as) \<Longrightarrow>
     fold (\<lambda>a. AList.update (k a) a) as xs = xs @ map (\<lambda>a. (k a, a)) as"
proof (induction as arbitrary: xs)
  case Nil
  then show ?case by simp
next
  case (Cons a as)
  have fresh: "k a \<notin> fst ` set xs" using Cons.prems by auto
  then have upd: "AList.update (k a) a xs = xs @ [(k a, a)]"
    by (induction xs) auto
  have "distinct (map fst (xs @ [(k a, a)]) @ map k as)" using Cons.prems by auto
  from Cons.IH[OF this] upd show ?case by simp
qed

lemma built_attrs_length [simp]: "length (built_attrs c es) = length es"
  by (simp add: built_attrs_def)

lemma map2_proj1:
  "length xs = length ys \<Longrightarrow> (\<And>x y. h (f x y) = x) \<Longrightarrow> map h (map2 f xs ys) = xs"
  by (induction xs ys rule: list_induct2) auto

lemma map2_proj2:
  "length xs = length ys \<Longrightarrow> (\<And>x y. h (f x y) = y) \<Longrightarrow> map h (map2 f xs ys) = ys"
  by (induction xs ys rule: list_induct2) auto

lemma built_attrs_yaml [simp]: "map attr_yaml (built_attrs c es) = es"
  unfolding built_attrs_def by (rule map2_proj1) (simp_all add: SpecAttr_init_def)

lemma built_attrs_value [simp]:
  "map attr_value (built_attrs c es) = counter_values c (map ay_value es)"
  unfolding built_attrs_def by (rule map2_proj2) (simp_all add: SpecAttr_init_def)

lemma register_ops_Nil [simp]: "register_ops [] vs f = f"
  by (simp add: register_ops_def)

lemma op_name_init [simp]: "op_name (SpecOperation_init e r s) = oy_name e"
  by (simp add: SpecOperation_init_def)

lemma new_operation_eq:
  "new_operation e r s f =
     (length (op_objs f),
      f\<lparr>op_objs := op_objs f @ [SpecOperation_init e r s],
        resolution_list := resolution_list f @ [ElOp (length (op_objs f))]\<rparr>)"
  by (simp add: new_operation_def add_unresolved_def Let_def)

lemma register_ops_step:
  "register_ops (e # es) ((r, s) # vs) f =
     register_ops es vs
       (f\<lparr>op_objs := op_objs f @ [SpecOperation_init e r s],
          resolution_list := resolution_list f @ [ElOp (length (op_objs f))],
          msgs := AList.update (oy_name e) (length (op_objs f)) (msgs f)\<rparr>)"
  by (simp add: register_ops_def upt_conv_Cons del: upt_Suc)

lemma dictify_ops_unified_loop_eq:
  "dictify_ops_unified_loop es c f =
     register_ops es (map (\<lambda>v. (Some v, Some v)) (counter_values c (map oy_value es))) f"
proof (induction es arbitrary: c f)
  case Nil
  then show ?case by simp
next
  case (Cons e es)
  show ?case
    by (simp add: Let_def Cons.IH register_ops_step new_operation_eq)
qed

lemma map_key_zip: "map (\<lambda>a. (k a, a)) xs = zip (map k xs) xs"
  by (induction xs) simp_all

lemma directional_values_length:
  "list_all classifiable es \<Longrightarrow> length (directional_values es rq rs) = length es"
  by (induction es arbitrary: rq rs) (auto simp: Let_def classifiable_def split: option.splits)

lemma dictify_ops_directional_loop_eq:
  "list_all classifiable es \<Longrightarrow>
     dictify_ops_directional_loop es rq rs f = (Normal, register_ops es (directional_values es rq rs) f)"
proof (induction es arbitrary: rq rs f)
  case Nil
  then show ?case by simp
next
  case (Cons e es)
  then have IH: "\<And>rq rs f. dictify_ops_directional_loop es rq rs f
       = (Normal, register_ops es (directional_values es rq rs) f)"
    and cl: "classifiable e" by simp_all
  show ?case
  proof (cases "oy_notify e")
    case (Some t)
    then show ?thesis
      by (simp add: Let_def IH register_ops_step new_operation_eq)
  next
    case None
    with cl obtain mode where m: "call_mode e = Some mode"
      by (auto simp: classifiable_def)
    then have m': "(case oy_do e of Some m \<Rightarrow> Some m | None \<Rightarrow> oy_dump e) = Some mode"
      by (simp add: call_mode_def)
    show ?thesis
      by (simp add: None m m' Let_def IH register_ops_step new_operation_eq)
  qed
qed

lemma dictify_ops_directional_loop_raise:
  "\<not> list_all classifiable es \<Longrightarrow>
     fst (dictify_ops_directional_loop es rq rs f) = Raised (Exception ''Can't parse directional ops'')"
proof (induction es arbitrary: rq rs f)
  case Nil
  then show ?case by simp
next
  case (Cons e es)
  show ?case
  proof (cases "classifiable e")
    case True
    with Cons.prems have rest: "\<not> list_all classifiable es" by simp
    show ?thesis
    proof (cases "oy_notify e")
      case (Some t)
      then show ?thesis
        by (simp add: Let_def Cons.IH[OF rest] new_operation_eq)
    next
      case None
      with True obtain mode where "call_mode e = Some mode"
        by (auto simp: classifiable_def)
      then have m': "(case oy_do e of Some m \<Rightarrow> Some m | None \<Rightarrow> oy_dump e) = Some mode"
        by (simp add: call_mode_def)
      show ?thesis
        by (simp add: None m' Let_def Cons.IH[OF rest] new_operation_eq)
    qed
  next
    case False
    then have "oy_notify e = None"
      and "(case oy_do e of Some m \<Rightarrow> Some m | None \<Rightarrow> oy_dump e) = None"
      by (auto simp: classifiable_def call_mode_def)
    then show ?thesis by simp
  qed
qed

lemma catalog_loop_Cons: "catalog_loop (a # rest) f = catalog_loop rest (catalog_step a f)"
proof -
  let ?op = "op_objs f ! a"
  obtain f1 where f1: "f1 = (case req_value ?op of
                 Some v \<Rightarrow> f\<lparr>req_by_value := AList.update v a (req_by_value f)\<rparr>
               | None \<Rightarrow> f)" by simp
  obtain f2 where f2: "f2 = (case rsp_value ?op of
                 Some v \<Rightarrow> f1\<lparr>rsp_by_value := AList.update v a (rsp_by_value f1)\<rparr>
               | None \<Rightarrow> f1)" by simp
  obtain f3 where f3: "f3 = (if \<not> is_async ?op \<and> oy_attribute_set (op_yaml ?op) \<noteq> None
               then f2\<lparr>ops := AList.update (op_name ?op) a (ops f2)\<rparr> else f2)" by simp
  have e1: "f1 = f\<lparr>req_by_value := catalog_step_req (op_objs f) a (req_by_value f)\<rparr>"
    by (simp add: f1 catalog_step_req_def split: option.splits)
  have e2: "f2 = f1\<lparr>rsp_by_value := catalog_step_rsp (op_objs f) a (rsp_by_value f1)\<rparr>"
    by (simp add: f2 catalog_step_rsp_def split: option.splits)
  have e3: "f3 = f2\<lparr>ops := catalog_step_ops (op_objs f) a (ops f2)\<rparr>"
    by (simp add: f3 catalog_step_ops_def)
  have "f3 = catalog_step a f"
    by (simp add: e1 e2 e3 catalog_step_def)
  moreover have "catalog_loop (a # rest) f = catalog_loop rest f3"
    by (simp only: catalog_loop.simps Let_def f1 f2 f3)
  ultimately show ?thesis by simp
qed

lemma catalog_loop_eq:
  "catalog_loop as f =
     f\<lparr>req_by_value := fold (catalog_step_req (op_objs f)) as (req_by_value f),
       rsp_by_value := fold (catalog_step_rsp (op_objs f)) as (rsp_by_value f),
       ops := fold (catalog_step_ops (op_objs f)) as (ops f)\<rparr>"
proof (induction as arbitrary: f)
  case Nil
  then show ?case by simp
next
  case (Cons a as)
  show ?case
    by (simp only: catalog_loop_Cons Cons.IH) (simp add: catalog_step_def)
qed

section \<open>The resolution step of the family\<close>

lemma yaml_resolve_up_family [simp]: "yaml (resolve_up_family f) = yaml f"
  by (simp add: resolve_up_family_def)

lemma yaml_attr_sets_loop [simp]: "yaml (attr_sets_loop ss f) = yaml f"
  by (simp add: attr_sets_loop_eq)

lemma SpecFamily_resolve_ok:
  assumes "parse_ok (operations (yaml f))"
  shows "SpecFamily_resolve f =
           (Normal, catalog_loop (map snd (msgs (family_built f))) (family_built f))"
proof -
  let ?b = "operations (yaml f)"
  let ?m = "case enum_model ?b of None \<Rightarrow> ''unified'' | Some m \<Rightarrow> m"
  let ?fa = "attr_sets_loop (attribute_sets (yaml f)) (resolve_up_family f)"
  consider (u) "?m = ''unified''" | (d) "?m = ''directional''"
    | (o) "?m \<noteq> ''unified''" "?m \<noteq> ''directional''" by blast
  then show ?thesis
  proof cases
    case u
    then show ?thesis
      by (simp add: SpecFamily_resolve_def Let_def family_built_def registered_ops_def
            id_values_def dictify_ops_unified_def dictify_ops_unified_loop_eq)
  next
    case d
    then have "enum_model ?b = Some ''directional''"
      by (simp split: option.splits)
    with assms have "list_all classifiable (ops_list ?b)" by (simp add: parse_ok_def)
    then have "dictify_ops_directional ?fa
        = (Normal, register_ops (ops_list ?b) (directional_values (ops_list ?b) 0 0) ?fa)"
      by (simp add: dictify_ops_directional_def dictify_ops_directional_loop_eq)
    with d show ?thesis
      by (simp add: SpecFamily_resolve_def Let_def family_built_def registered_ops_def
            id_values_def)
  next
    case o
    then show ?thesis
      by (simp add: SpecFamily_resolve_def Let_def family_built_def registered_ops_def
            id_values_def)
  qed
qed

lemma SpecFamily_resolve_raise:
  assumes "\<not> parse_ok (operations (yaml f))"
  shows "fst (SpecFamily_resolve f) = Raised (Exception ''Can't parse directional ops'')"
proof -
  let ?b = "operations (yaml f)"
  let ?fa = "attr_sets_loop (attribute_sets (yaml f)) (resolve_up_family f)"
  from assms have m: "enum_model ?b = Some ''directional''"
    and cl: "\<not> list_all classifiable (ops_list ?b)"
    by (simp_all add: parse_ok_def)
  have "fst (dictify_ops_directional ?fa) = Raised (Exception ''Can't parse directional ops'')"
    using cl by (simp add: dictify_ops_directional_def dictify_ops_directional_loop_raise)
  then obtain g where
    "dictify_ops_directional ?fa = (Raised (Exception ''Can't parse directional ops''), g)"
    by (cases "dictify_ops_directional ?fa") simp
  then show ?thesis
    by (simp add: SpecFamily_resolve_def Let_def m)
qed

section \<open>What the resolution of an operation leaves unchanged\<close>

lemma same_frame_refl [simp]: "same_frame f f"
  by (simp add: same_frame_def)

lemma same_frame_sym: "same_frame f g \<Longrightarrow> same_frame g f"
  by (simp add: same_frame_def)

lemma same_frame_trans: "same_frame f g \<Longrightarrow> same_frame g h \<Longrightarrow> same_frame f h"
  by (simp add: same_frame_def)

lemma same_frame_fields:
  assumes "same_frame f g"
  shows "msgs f = msgs g" "attr_sets f = attr_sets g" "ops f = ops g"
    "req_by_value f = req_by_value g" "rsp_by_value f = rsp_by_value g" "yaml f = yaml g"
    "length (op_objs f) = length (op_objs g)"
proof -
  from assms have eq: "f\<lparr>resolution_list := [], op_objs := []\<rparr> = g\<lparr>resolution_list := [], op_objs := []\<rparr>"
    by (simp add: same_frame_def)
  from arg_cong[OF eq, of msgs] show "msgs f = msgs g" by simp
  from arg_cong[OF eq, of attr_sets] show "attr_sets f = attr_sets g" by simp
  from arg_cong[OF eq, of ops] show "ops f = ops g" by simp
  from arg_cong[OF eq, of req_by_value] show "req_by_value f = req_by_value g" by simp
  from arg_cong[OF eq, of rsp_by_value] show "rsp_by_value f = rsp_by_value g" by simp
  from arg_cong[OF eq, of yaml] show "yaml f = yaml g" by simp
  from assms show "length (op_objs f) = length (op_objs g)" by (simp add: same_frame_def)
qed

lemma same_frame_op_fields:
  assumes "same_frame f g"
  shows "op_yaml (op_objs f ! i) = op_yaml (op_objs g ! i)"
    "op_name (op_objs f ! i) = op_name (op_objs g ! i)"
    "is_resv (op_objs f ! i) = is_resv (op_objs g ! i)"
    "is_async (op_objs f ! i) = is_async (op_objs g ! i)"
    "is_call (op_objs f ! i) = is_call (op_objs g ! i)"
    "req_value (op_objs f ! i) = req_value (op_objs g ! i)"
    "rsp_value (op_objs f ! i) = rsp_value (op_objs g ! i)"
    "op_value (op_objs f ! i) = op_value (op_objs g ! i)"
proof -
  from assms have eq: "op_frame (op_objs f ! i) = op_frame (op_objs g ! i)"
    by (simp add: same_frame_def)
  from arg_cong[OF eq, of op_yaml] show "op_yaml (op_objs f ! i) = op_yaml (op_objs g ! i)"
    by (simp add: op_frame_def)
  from arg_cong[OF eq, of op_name] show "op_name (op_objs f ! i) = op_name (op_objs g ! i)"
    by (simp add: op_frame_def)
  from arg_cong[OF eq, of is_resv] show "is_resv (op_objs f ! i) = is_resv (op_objs g ! i)"
    by (simp add: op_frame_def)
  from arg_cong[OF eq, of is_async] show "is_async (op_objs f ! i) = is_async (op_objs g ! i)"
    by (simp add: op_frame_def)
  from arg_cong[OF eq, of is_call] show "is_call (op_objs f ! i) = is_call (op_objs g ! i)"
    by (simp add: op_frame_def)
  from arg_cong[OF eq, of req_value] show "req_value (op_objs f ! i) = req_value (op_objs g ! i)"
    by (simp add: op_frame_def)
  from arg_cong[OF eq, of rsp_value] show "rsp_value (op_objs f ! i) = rsp_value (op_objs g ! i)"
    by (simp add: op_frame_def)
  from arg_cong[OF eq, of op_value] show "op_value (op_objs f ! i) = op_value (op_objs g ! i)"
    by (simp add: op_frame_def)
qed

lemma attr_set_name_of_frame:
  assumes "same_frame f g"
  shows "attr_set_name_of (op_objs f ! a) f = attr_set_name_of (op_objs g ! a) g"
  unfolding attr_set_name_of_def same_frame_fields(1)[OF assms]
    same_frame_op_fields(1,2,3)[OF assms]
  by (rule refl)

lemma resolve_outcome_frame:
  assumes "same_frame f g"
  shows "resolve_outcome a f = resolve_outcome a g"
  unfolding resolve_outcome_def attr_set_name_of_frame[OF assms] same_frame_fields(2)[OF assms]
  by (rule refl)

lemma expected_set_frame:
  assumes "same_frame f g"
  shows "expected_set a f = expected_set a g"
  unfolding expected_set_def attr_set_name_of_frame[OF assms] same_frame_fields(2)[OF assms]
  by (rule refl)

lemma op_frame_update:
  "op_frame y = op_frame (xs ! a) \<Longrightarrow> op_frame (xs[a := y] ! i) = op_frame (xs ! i)"
  by (cases "a < length xs") (auto simp: nth_list_update list_update_beyond not_less)

lemma same_frame_op_update:
  "op_frame y = op_frame (op_objs f ! a) \<Longrightarrow> same_frame f (f\<lparr>op_objs := (op_objs f)[a := y]\<rparr>)"
  by (simp add: same_frame_def op_frame_update)

lemma same_frame_add_unresolved [simp]: "same_frame f (add_unresolved e f)"
  by (simp add: same_frame_def add_unresolved_def)

lemma same_frame_resolve_up: "same_frame f (resolve_up a f)"
proof (cases "op_super_resolved (op_objs f ! a)")
  case True
  then show ?thesis by (simp add: resolve_up_def)
next
  case False
  have "same_frame f (f\<lparr>op_objs := (op_objs f)[a := (op_objs f ! a)\<lparr>op_super_resolved := True\<rparr>]\<rparr>)"
    by (rule same_frame_op_update) (simp add: op_frame_def)
  with False show ?thesis by (simp add: resolve_up_def)
qed

lemma resolution_list_resolve_up [simp]:
  "resolution_list (resolve_up a f) = resolution_list f"
  by (simp add: resolve_up_def)

lemma SpecOperation_resolve_cases:
  "SpecOperation_resolve a f =
     (case attr_set_name_of (op_objs (resolve_up a f) ! a) (resolve_up a f) of
           Inl e \<Rightarrow> (Raised e, resolve_up a f)
         | Inr n \<Rightarrow>
             if n \<noteq> [] then
               (case map_of (attr_sets (resolve_up a f)) n of
                  None \<Rightarrow> (Raised (KeyError n), resolve_up a f)
                | Some s \<Rightarrow>
                    (Normal, (resolve_up a f)\<lparr>op_objs := (op_objs (resolve_up a f))
                        [a := (op_objs (resolve_up a f) ! a)\<lparr>attr_set := Some s\<rparr>]\<rparr>))
             else (Normal, resolve_up a f))"
  by (simp add: SpecOperation_resolve_def Let_def)

lemma SpecOperation_resolve_outcome:
  "fst (SpecOperation_resolve a f) = resolve_outcome a f"
  unfolding SpecOperation_resolve_cases resolve_outcome_def
    attr_set_name_of_frame[OF same_frame_resolve_up[of f a], of a]
    same_frame_fields(2)[OF same_frame_resolve_up[of f a]]
  by (simp split: sum.splits option.splits)

lemma SpecOperation_resolve_frame:
  "same_frame f (snd (SpecOperation_resolve a f))"
proof -
  have 1: "same_frame f (resolve_up a f)" by (rule same_frame_resolve_up)
  have 2: "same_frame (resolve_up a f) ((resolve_up a f)\<lparr>op_objs := (op_objs (resolve_up a f))
                        [a := (op_objs (resolve_up a f) ! a)\<lparr>attr_set := Some s\<rparr>]\<rparr>)" for s
    by (rule same_frame_op_update) (simp add: op_frame_def)
  show ?thesis
    unfolding SpecOperation_resolve_cases
    using 1 same_frame_trans[OF 1 2]
    by (simp split: sum.splits option.splits)
qed

lemma SpecOperation_resolve_list:
  "resolution_list (snd (SpecOperation_resolve a f)) = resolution_list f"
  unfolding SpecOperation_resolve_cases
  by (simp split: sum.splits option.splits)

section \<open>One pass of the engine\<close>

lemma elem_resolve_outcome: "fst (elem_resolve e f) = elem_outcome e f"
  by (cases e) (simp_all add: SpecOperation_resolve_outcome)

lemma elem_resolve_frame: "e \<noteq> ElFamily \<Longrightarrow> same_frame f (snd (elem_resolve e f))"
  by (cases e) (simp_all add: SpecOperation_resolve_frame)

lemma elem_resolve_list:
  "e \<noteq> ElFamily \<Longrightarrow> resolution_list (snd (elem_resolve e f)) = resolution_list f"
  by (cases e) (simp_all add: SpecOperation_resolve_list)

lemma elem_outcome_frame:
  "e \<noteq> ElFamily \<Longrightarrow> same_frame f g \<Longrightarrow> elem_outcome e f = elem_outcome e g"
  by (cases e) (simp_all add: resolve_outcome_frame)

lemma outcome_cases: "c = Normal \<or> stuck c \<or> fatal c"
  by (cases c) auto


lemma resolve_elems_step_normal:
  "elem_outcome e f = Normal \<Longrightarrow>
     resolve_elems (e # es) res le f = resolve_elems es (res @ [e]) le (snd (elem_resolve e f))"
  using elem_resolve_outcome[of e f] by (cases "elem_resolve e f") simp

lemma resolve_elems_step_stuck:
  "elem_outcome e f = Raised x \<Longrightarrow> is_deferred x \<Longrightarrow>
     resolve_elems (e # es) res le f
       = resolve_elems es res (Some x) (add_unresolved e (snd (elem_resolve e f)))"
  using elem_resolve_outcome[of e f] by (cases "elem_resolve e f") simp

lemma resolve_elems_step_fatal:
  "elem_outcome e f = Raised x \<Longrightarrow> \<not> is_deferred x \<Longrightarrow>
     resolve_elems (e # es) res le f = Inl x"
  using elem_resolve_outcome[of e f] by (cases "elem_resolve e f") simp

lemma resolve_elems_nonfatal:
  assumes "ElFamily \<notin> set es" and "\<forall>e\<in>set es. \<not> fatal (elem_outcome e f)"
  shows "\<exists>le' f'. resolve_elems es res le f
             = Inr (res @ filter (\<lambda>e. elem_outcome e f = Normal) es, le', f')
           \<and> same_frame f f'
           \<and> resolution_list f' = resolution_list f @ filter (\<lambda>e. stuck (elem_outcome e f)) es
           \<and> (filter (\<lambda>e. stuck (elem_outcome e f)) es \<noteq> [] \<longrightarrow> (\<exists>x. le' = Some x \<and> is_deferred x))
           \<and> (filter (\<lambda>e. stuck (elem_outcome e f)) es = [] \<longrightarrow> le' = le)"
  using assms
proof (induction es arbitrary: res le f)
  case Nil
  then show ?case by simp
next
  case (Cons e es)
  from Cons.prems have ne: "e \<noteq> ElFamily" and nes: "ElFamily \<notin> set es"
    and nf: "\<not> fatal (elem_outcome e f)" and nfs: "\<forall>e\<in>set es. \<not> fatal (elem_outcome e f)"
    by auto
  let ?f1 = "snd (elem_resolve e f)"
  have fr1: "same_frame f ?f1" by (rule elem_resolve_frame[OF ne])
  have l1: "resolution_list ?f1 = resolution_list f" by (rule elem_resolve_list[OF ne])
  show ?case
  proof (cases "elem_outcome e f")
    case Normal
    have same: "\<forall>e'\<in>set es. elem_outcome e' ?f1 = elem_outcome e' f"
      using nes elem_outcome_frame[OF _ fr1] by metis
    then have nfs1: "\<forall>e\<in>set es. \<not> fatal (elem_outcome e ?f1)" using nfs by simp
    from Cons.IH[OF nes nfs1, of "res @ [e]" le] obtain le' f' where
      r: "resolve_elems es (res @ [e]) le ?f1
            = Inr ((res @ [e]) @ filter (\<lambda>e. elem_outcome e ?f1 = Normal) es, le', f')"
      and fr: "same_frame ?f1 f'"
      and l: "resolution_list f' = resolution_list ?f1 @ filter (\<lambda>e. stuck (elem_outcome e ?f1)) es"
      and s1: "filter (\<lambda>e. stuck (elem_outcome e ?f1)) es \<noteq> [] \<longrightarrow> (\<exists>x. le' = Some x \<and> is_deferred x)"
      and s2: "filter (\<lambda>e. stuck (elem_outcome e ?f1)) es = [] \<longrightarrow> le' = le"
      by blast
    have fn: "filter (\<lambda>e. elem_outcome e ?f1 = Normal) es = filter (\<lambda>e. elem_outcome e f = Normal) es"
      using same by (intro filter_cong) auto
    have fs: "filter (\<lambda>e. stuck (elem_outcome e ?f1)) es = filter (\<lambda>e. stuck (elem_outcome e f)) es"
      using same by (intro filter_cong) auto
    show ?thesis
      apply (rule exI[of _ le'], rule exI[of _ f'])
      using r fr l s1 s2 same_frame_trans[OF fr1 fr]
      by (simp add: resolve_elems_step_normal[OF Normal] Normal fn fs l1 del: resolve_elems.simps)
  next
    case (Raised x)
    with nf have dx: "is_deferred x" by simp
    let ?f2 = "add_unresolved e ?f1"
    have fr2: "same_frame f ?f2"
      using same_frame_trans[OF fr1 same_frame_add_unresolved] .
    have l2: "resolution_list ?f2 = resolution_list f @ [e]"
      by (simp add: add_unresolved_def l1)
    have same: "\<forall>e'\<in>set es. elem_outcome e' ?f2 = elem_outcome e' f"
      using nes elem_outcome_frame[OF _ fr2] by metis
    then have nfs2: "\<forall>e\<in>set es. \<not> fatal (elem_outcome e ?f2)" using nfs by simp
    from Cons.IH[OF nes nfs2, of res "Some x"] obtain le' f' where
      r: "resolve_elems es res (Some x) ?f2
            = Inr (res @ filter (\<lambda>e. elem_outcome e ?f2 = Normal) es, le', f')"
      and fr: "same_frame ?f2 f'"
      and l: "resolution_list f' = resolution_list ?f2 @ filter (\<lambda>e. stuck (elem_outcome e ?f2)) es"
      and s1: "filter (\<lambda>e. stuck (elem_outcome e ?f2)) es \<noteq> [] \<longrightarrow> (\<exists>x. le' = Some x \<and> is_deferred x)"
      and s2: "filter (\<lambda>e. stuck (elem_outcome e ?f2)) es = [] \<longrightarrow> le' = Some x"
      by blast
    have fn: "filter (\<lambda>e. elem_outcome e ?f2 = Normal) es = filter (\<lambda>e. elem_outcome e f = Normal) es"
      using same by (intro filter_cong) auto
    have fs: "filter (\<lambda>e. stuck (elem_outcome e ?f2)) es = filter (\<lambda>e. stuck (elem_outcome e f)) es"
      using same by (intro filter_cong) auto
    have le': "\<exists>y. le' = Some y \<and> is_deferred y" using s1 s2 dx by blast
    show ?thesis
      apply (rule exI[of _ le'], rule exI[of _ f'])
      using r fr l le' same_frame_trans[OF fr2 fr]
      by (simp add: resolve_elems_step_stuck[OF Raised dx] Raised dx fn fs l2 del: resolve_elems.simps)
  qed
qed

lemma resolve_elems_fatal:
  assumes "ElFamily \<notin> set es" and "\<exists>e\<in>set es. fatal (elem_outcome e f)"
  shows "\<exists>x. resolve_elems es res le f = Inl x \<and> \<not> is_deferred x"
  using assms
proof (induction es arbitrary: res le f)
  case Nil
  then show ?case by simp
next
  case (Cons e es)
  from Cons.prems have ne: "e \<noteq> ElFamily" and nes: "ElFamily \<notin> set es" by auto
  let ?f1 = "snd (elem_resolve e f)"
  have fr1: "same_frame f ?f1" by (rule elem_resolve_frame[OF ne])
  show ?case
  proof (cases "elem_outcome e f")
    case Normal
    with Cons.prems(2) obtain e' where e': "e' \<in> set es" "fatal (elem_outcome e' f)" by auto
    with nes have "e' \<noteq> ElFamily" by auto
    from elem_outcome_frame[OF this fr1] e' have "\<exists>e\<in>set es. fatal (elem_outcome e ?f1)" by auto
    from Cons.IH[OF nes this] show ?thesis
      by (simp add: resolve_elems_step_normal[OF Normal] del: resolve_elems.simps)
  next
    case (Raised x)
    show ?thesis
    proof (cases "is_deferred x")
      case True
      let ?f2 = "add_unresolved e ?f1"
      have fr2: "same_frame f ?f2"
        using same_frame_trans[OF fr1 same_frame_add_unresolved] .
      from Cons.prems(2) Raised True obtain e' where e': "e' \<in> set es" "fatal (elem_outcome e' f)"
        by auto
      with nes have "e' \<noteq> ElFamily" by auto
      from elem_outcome_frame[OF this fr2] e' have "\<exists>e\<in>set es. fatal (elem_outcome e ?f2)" by auto
      from Cons.IH[OF nes this] show ?thesis
        by (simp add: resolve_elems_step_stuck[OF Raised True] del: resolve_elems.simps)
    next
      case False
      then show ?thesis by (simp add: resolve_elems_step_fatal[OF Raised False] del: resolve_elems.simps)
    qed
  qed
qed

lemma resolution_loop_empty:
  "resolution_list f = [] \<Longrightarrow> resolution_loop n le f = Some (Inr f)"
  by (cases n) simp_all

lemma resolution_loop_mono:
  "resolution_loop n le f = Some r \<Longrightarrow> resolution_loop (n + k) le f = Some r"
proof (induction n arbitrary: le f)
  case 0
  then have "resolution_list f = []" "r = Inr f" by (auto split: if_splits)
  then show ?case by (simp add: resolution_loop_empty)
next
  case (Suc n)
  show ?case
  proof (cases "resolution_list f = []")
    case True
    with Suc.prems show ?thesis by (simp add: resolution_loop_empty)
  next
    case False
    with Suc.prems Suc.IH show ?thesis
      by (auto split: sum.splits prod.splits if_splits)
  qed
qed

section \<open>The attribute set that an operation receives\<close>

lemma resolve_up_attr_set [simp]:
  "attr_set (op_objs (resolve_up a f) ! b) = attr_set (op_objs f ! b)"
  by (cases "a < length (op_objs f)")
     (auto simp: resolve_up_def nth_list_update list_update_beyond not_less)

lemma resolve_up_length [simp]: "length (op_objs (resolve_up a f)) = length (op_objs f)"
  by (simp add: resolve_up_def)

lemma resolve_attr_set_other:
  "b \<noteq> a \<Longrightarrow> attr_set (op_objs (snd (SpecOperation_resolve a f)) ! b) = attr_set (op_objs f ! b)"
  unfolding SpecOperation_resolve_cases
  by (simp split: sum.splits option.splits)

lemma resolve_attr_set_self:
  assumes "a < length (op_objs f)"
  shows "attr_set (op_objs (snd (SpecOperation_resolve a f)) ! a)
           = (if resolve_outcome a f = Normal \<and> expected_set a f \<noteq> None
              then expected_set a f else attr_set (op_objs f ! a))"
proof -
  have n: "attr_set_name_of (op_objs (resolve_up a f) ! a) (resolve_up a f)
             = attr_set_name_of (op_objs f ! a) f"
    by (rule attr_set_name_of_frame[OF same_frame_resolve_up, symmetric])
  have s: "attr_sets (resolve_up a f) = attr_sets f"
    by (rule same_frame_fields(2)[OF same_frame_resolve_up, symmetric])
  show ?thesis
    unfolding SpecOperation_resolve_cases n s resolve_outcome_def expected_set_def
    using assms by (simp split: sum.splits option.splits)
qed

lemma elem_resolve_length:
  "e \<noteq> ElFamily \<Longrightarrow> length (op_objs (snd (elem_resolve e f))) = length (op_objs f)"
  using same_frame_fields(7)[OF elem_resolve_frame, of e f] by simp

lemma elem_resolve_attr_set:
  assumes "e \<noteq> ElFamily" and "b < length (op_objs f)"
  shows "attr_set (op_objs (snd (elem_resolve e f)) ! b)
           = (if e = ElOp b \<and> resolve_outcome b f = Normal \<and> expected_set b f \<noteq> None
              then expected_set b f else attr_set (op_objs f ! b))"
proof (cases e)
  case (ElOp a)
  show ?thesis
  proof (cases "a = b")
    case True
    with ElOp assms(2) show ?thesis by (simp add: resolve_attr_set_self)
  next
    case False
    with ElOp show ?thesis by (simp add: resolve_attr_set_other)
  qed
qed (use assms in simp_all)

lemma elem_resolve_invariants:
  assumes ne: "e \<noteq> ElFamily" and b: "b < length (op_objs f)"
  defines "g \<equiv> snd (elem_resolve e f)"
  shows "unset_or_resolved f b \<Longrightarrow> unset_or_resolved g b"
    and "resolved_at f b \<Longrightarrow> resolved_at g b"
    and "unset_or_resolved f b \<Longrightarrow> e = ElOp b \<Longrightarrow> resolve_outcome b f = Normal \<Longrightarrow> resolved_at g b"
proof -
  have ex: "expected_set b g = expected_set b f"
    unfolding g_def by (rule expected_set_frame[OF elem_resolve_frame[OF ne], symmetric])
  have at: "attr_set (op_objs g ! b)
           = (if e = ElOp b \<and> resolve_outcome b f = Normal \<and> expected_set b f \<noteq> None
              then expected_set b f else attr_set (op_objs f ! b))"
    unfolding g_def by (rule elem_resolve_attr_set[OF ne b])
  show "unset_or_resolved f b \<Longrightarrow> unset_or_resolved g b"
    by (auto simp: unset_or_resolved_def ex at)
  show "resolved_at f b \<Longrightarrow> resolved_at g b"
    by (auto simp: resolved_at_def ex at)
  show "unset_or_resolved f b \<Longrightarrow> e = ElOp b \<Longrightarrow> resolve_outcome b f = Normal \<Longrightarrow> resolved_at g b"
    by (auto simp: unset_or_resolved_def resolved_at_def ex at)
qed

lemma add_unresolved_invariants [simp]:
  "unset_or_resolved (add_unresolved e f) b = unset_or_resolved f b"
  "resolved_at (add_unresolved e f) b = resolved_at f b"
  "length (op_objs (add_unresolved e f)) = length (op_objs f)"
proof -
  have ex: "expected_set b (add_unresolved e f) = expected_set b f"
    by (rule expected_set_frame[OF same_frame_add_unresolved, symmetric])
  have ob: "op_objs (add_unresolved e f) = op_objs f" by (simp add: add_unresolved_def)
  show "unset_or_resolved (add_unresolved e f) b = unset_or_resolved f b"
    by (simp add: unset_or_resolved_def ex ob)
  show "resolved_at (add_unresolved e f) b = resolved_at f b"
    by (simp add: resolved_at_def ex ob)
  show "length (op_objs (add_unresolved e f)) = length (op_objs f)" by (simp add: ob)
qed

lemma resolve_elems_attr_sets:
  assumes "ElFamily \<notin> set es" and "resolve_elems es res le f = Inr (res', le', f')"
    and "\<forall>b < length (op_objs f). unset_or_resolved f b"
  shows "\<forall>b < length (op_objs f).
           unset_or_resolved f' b
           \<and> (resolved_at f b \<or> (ElOp b \<in> set es \<and> resolve_outcome b f = Normal)
                \<longrightarrow> resolved_at f' b)"
  using assms
proof (induction es arbitrary: res le f)
  case Nil
  then show ?case by auto
next
  case (Cons e es)
  from Cons.prems have ne: "e \<noteq> ElFamily" and nes: "ElFamily \<notin> set es" by auto
  let ?f1 = "snd (elem_resolve e f)"
  let ?f2 = "add_unresolved e ?f1"
  have fr1: "same_frame f ?f1" by (rule elem_resolve_frame[OF ne])
  have len1: "length (op_objs ?f1) = length (op_objs f)" by (rule elem_resolve_length[OF ne])
  have u1: "\<forall>b < length (op_objs f). unset_or_resolved ?f1 b"
    using Cons.prems(3) elem_resolve_invariants(1)[OF ne] by blast
  have out1: "resolve_outcome b ?f1 = resolve_outcome b f" for b
    by (rule resolve_outcome_frame[OF fr1, symmetric])
  have out2: "resolve_outcome b ?f2 = resolve_outcome b f" for b
    using resolve_outcome_frame[OF same_frame_trans[OF fr1 same_frame_add_unresolved], of b e]
    by simp
  have step: "resolved_at ?f1 b"
    if "b < length (op_objs f)"
      and "resolved_at f b \<or> (e = ElOp b \<and> resolve_outcome b f = Normal)" for b
    using that Cons.prems(3) elem_resolve_invariants(2,3)[OF ne that(1)] by blast
  show ?case
  proof (cases "elem_outcome e f")
    case Normal
    from Cons.prems(2) have r: "resolve_elems es (res @ [e]) le ?f1 = Inr (res', le', f')"
      by (simp add: resolve_elems_step_normal[OF Normal] del: resolve_elems.simps)
    from Cons.IH[OF nes r] u1 len1
    have IH: "\<forall>b<length (op_objs f). unset_or_resolved f' b \<and>
         (resolved_at ?f1 b \<or> ElOp b \<in> set es \<and> resolve_outcome b ?f1 = Normal \<longrightarrow> resolved_at f' b)"
      by simp
    show ?thesis
    proof (intro allI impI conjI)
      fix b assume b: "b < length (op_objs f)"
      from IH b show "unset_or_resolved f' b" by blast
      assume "resolved_at f b \<or> ElOp b \<in> set (e # es) \<and> resolve_outcome b f = Normal"
      then consider "resolved_at f b \<or> (e = ElOp b \<and> resolve_outcome b f = Normal)"
        | "ElOp b \<in> set es \<and> resolve_outcome b f = Normal" by auto
      then show "resolved_at f' b"
      proof cases
        case 1
        from step[OF b 1] IH b show ?thesis by blast
      next
        case 2
        with IH b out1 show ?thesis by simp
      qed
    qed
  next
    case (Raised x)
    show ?thesis
    proof (cases "is_deferred x")
      case True
      from Cons.prems(2) have r: "resolve_elems es res (Some x) ?f2 = Inr (res', le', f')"
        by (simp add: resolve_elems_step_stuck[OF Raised True] del: resolve_elems.simps)
      have u2: "\<forall>b < length (op_objs ?f2). unset_or_resolved ?f2 b"
        using u1 len1 by simp
      from Cons.IH[OF nes r u2] len1
      have IH: "\<forall>b<length (op_objs f). unset_or_resolved f' b \<and>
         (resolved_at ?f1 b \<or> ElOp b \<in> set es \<and> resolve_outcome b ?f2 = Normal \<longrightarrow> resolved_at f' b)"
        by simp
      show ?thesis
      proof (intro allI impI conjI)
        fix b assume b: "b < length (op_objs f)"
        from IH b show "unset_or_resolved f' b" by blast
        assume "resolved_at f b \<or> ElOp b \<in> set (e # es) \<and> resolve_outcome b f = Normal"
        then consider "resolved_at f b \<or> (e = ElOp b \<and> resolve_outcome b f = Normal)"
          | "ElOp b \<in> set es \<and> resolve_outcome b f = Normal" by auto
        then show "resolved_at f' b"
        proof cases
          case 1
          from step[OF b 1] IH b show ?thesis by blast
        next
          case 2
          with IH b out2 show ?thesis by simp
        qed
      qed
    next
      case False
      with Cons.prems(2) show ?thesis
        by (simp add: resolve_elems_step_fatal[OF Raised False] del: resolve_elems.simps)
    qed
  qed
qed

section \<open>The passes after the first\<close>

lemma same_frame_clear [simp]: "same_frame f (f\<lparr>resolution_list := []\<rparr>)"
  by (simp add: same_frame_def)

lemma elem_outcome_clear:
  "e \<noteq> ElFamily \<Longrightarrow> elem_outcome e (f\<lparr>resolution_list := []\<rparr>) = elem_outcome e f"
  by (rule elem_outcome_frame[OF _ same_frame_clear, symmetric])

lemma second_phase_fatal:
  assumes nf: "ElFamily \<notin> set (resolution_list f)"
    and ft: "\<exists>e\<in>set (resolution_list f). fatal (elem_outcome e f)"
  shows "\<exists>x. \<not> is_deferred x \<and> (\<forall>n. resolution_loop (Suc n) le f = Some (Inl (Propagated x)))"
proof -
  let ?g = "f\<lparr>resolution_list := []\<rparr>"
  from ft nf have "\<exists>e\<in>set (resolution_list f). fatal (elem_outcome e ?g)"
    using elem_outcome_clear by metis
  from resolve_elems_fatal[OF nf this, of "[]" le] obtain x where
    x: "resolve_elems (resolution_list f) [] le ?g = Inl x" "\<not> is_deferred x" by blast
  from ft have "resolution_list f \<noteq> []" by auto
  with x show ?thesis by (intro exI[of _ x]) simp
qed

lemma second_phase_pass:
  assumes nf: "ElFamily \<notin> set (resolution_list f)"
    and ft: "\<forall>e\<in>set (resolution_list f). \<not> fatal (elem_outcome e f)"
  shows "\<exists>le' f'. resolve_elems (resolution_list f) [] le (f\<lparr>resolution_list := []\<rparr>)
             = Inr (filter (\<lambda>e. elem_outcome e f = Normal) (resolution_list f), le', f')
           \<and> same_frame f f'
           \<and> resolution_list f' = filter (\<lambda>e. stuck (elem_outcome e f)) (resolution_list f)
           \<and> (filter (\<lambda>e. stuck (elem_outcome e f)) (resolution_list f) \<noteq> []
                \<longrightarrow> (\<exists>x. le' = Some x \<and> is_deferred x))"
proof -
  let ?g = "f\<lparr>resolution_list := []\<rparr>"
  let ?Q = "resolution_list f"
  have same: "\<forall>e\<in>set ?Q. elem_outcome e ?g = elem_outcome e f"
    using nf elem_outcome_clear by metis
  then have ft': "\<forall>e\<in>set ?Q. \<not> fatal (elem_outcome e ?g)" using ft by simp
  have fn: "filter (\<lambda>e. elem_outcome e ?g = Normal) ?Q = filter (\<lambda>e. elem_outcome e f = Normal) ?Q"
    using same by (intro filter_cong) auto
  have fs: "filter (\<lambda>e. stuck (elem_outcome e ?g)) ?Q = filter (\<lambda>e. stuck (elem_outcome e f)) ?Q"
    using same by (intro filter_cong) auto
  from resolve_elems_nonfatal[OF nf ft', of "[]" le] obtain le' f' where
    "resolve_elems ?Q [] le ?g = Inr ([] @ filter (\<lambda>e. elem_outcome e ?g = Normal) ?Q, le', f')"
    "same_frame ?g f'"
    "resolution_list f' = resolution_list ?g @ filter (\<lambda>e. stuck (elem_outcome e ?g)) ?Q"
    "filter (\<lambda>e. stuck (elem_outcome e ?g)) ?Q \<noteq> [] \<longrightarrow> (\<exists>x. le' = Some x \<and> is_deferred x)"
    by blast
  then show ?thesis
    using same_frame_trans[OF same_frame_clear, of f f']
    by (intro exI[of _ le'] exI[of _ f']) (simp add: fn fs)
qed

lemma second_phase_all_stuck:
  assumes nf: "ElFamily \<notin> set (resolution_list f)"
    and ne: "resolution_list f \<noteq> []"
    and st: "\<forall>e\<in>set (resolution_list f). stuck (elem_outcome e f)"
  shows "\<exists>x. is_deferred x \<and> (\<forall>n. resolution_loop (Suc n) le f = Some (Inl (Deadlock (Some x))))"
proof -
  let ?Q = "resolution_list f"
  have ft: "\<forall>e\<in>set ?Q. \<not> fatal (elem_outcome e f)"
    using st by (metis fatal.elims(2) stuck.simps(2))
  have fn: "filter (\<lambda>e. elem_outcome e f = Normal) ?Q = []"
    using st by (auto simp: filter_empty_conv)
  have fs: "filter (\<lambda>e. stuck (elem_outcome e f)) ?Q = ?Q"
    using st by simp
  from second_phase_pass[OF nf ft, of le] fn fs ne obtain le' f' x where
    "resolve_elems ?Q [] le (f\<lparr>resolution_list := []\<rparr>) = Inr ([], le', f')"
    "le' = Some x" "is_deferred x"
    by auto
  with ne show ?thesis by (intro exI[of _ x]) simp
qed

lemma second_phase_stuck:
  assumes nf: "ElFamily \<notin> set (resolution_list f)"
    and ft: "\<forall>e\<in>set (resolution_list f). \<not> fatal (elem_outcome e f)"
    and st: "\<exists>e\<in>set (resolution_list f). stuck (elem_outcome e f)"
  shows "\<exists>x. is_deferred x
           \<and> (\<forall>n. resolution_loop (Suc (Suc n)) le f = Some (Inl (Deadlock (Some x))))"
proof -
  let ?Q = "resolution_list f"
  let ?N = "filter (\<lambda>e. elem_outcome e f = Normal) ?Q"
  let ?S = "filter (\<lambda>e. stuck (elem_outcome e f)) ?Q"
  from st have ne: "?Q \<noteq> []" and Sne: "?S \<noteq> []" by (auto simp: filter_empty_conv)
  from second_phase_pass[OF nf ft, of le] Sne obtain le' f' x where
    pass: "resolve_elems ?Q [] le (f\<lparr>resolution_list := []\<rparr>) = Inr (?N, le', f')"
    and fr: "same_frame f f'" and l': "resolution_list f' = ?S"
    and le': "le' = Some x" "is_deferred x"
    by auto
  show ?thesis
  proof (cases "?N = []")
    case True
    with pass ne le' show ?thesis by (intro exI[of _ x]) simp
  next
    case False
    have nf': "ElFamily \<notin> set (resolution_list f')" using nf l' by auto
    have ne': "resolution_list f' \<noteq> []" using l' Sne by simp
    have st': "\<forall>e\<in>set (resolution_list f'). stuck (elem_outcome e f')"
    proof
      fix e assume e: "e \<in> set (resolution_list f')"
      with l' have "e \<in> set ?Q" "stuck (elem_outcome e f)" by auto
      moreover from this nf have "e \<noteq> ElFamily" by auto
      ultimately show "stuck (elem_outcome e f')"
        using elem_outcome_frame[OF _ fr, of e] by simp
    qed
    from second_phase_all_stuck[OF nf' ne' st', of le'] obtain y where
      y: "is_deferred y" "\<forall>n. resolution_loop (Suc n) le' f' = Some (Inl (Deadlock (Some y)))"
      by blast
    have "resolution_loop (Suc (Suc n)) le f = resolution_loop (Suc n) le' f'" for n
      using pass ne False by simp
    with y show ?thesis by (intro exI[of _ y]) simp
  qed
qed

lemma second_phase_normal:
  assumes nf: "ElFamily \<notin> set (resolution_list f)"
    and nm: "\<forall>e\<in>set (resolution_list f). elem_outcome e f = Normal"
  shows "\<exists>f'. same_frame f f' \<and> resolution_list f' = []
           \<and> (\<forall>n. resolution_loop (Suc n) le f = Some (Inr f'))
           \<and> (resolution_list f = [] \<longrightarrow> f' = f)
           \<and> ((\<forall>b < length (op_objs f). attr_set (op_objs f ! b) = None) \<longrightarrow>
                (\<forall>b < length (op_objs f). ElOp b \<in> set (resolution_list f) \<longrightarrow> resolved_at f' b))"
proof (cases "resolution_list f = []")
  case True
  then show ?thesis
    by (intro exI[of _ f]) (simp add: resolution_loop_empty)
next
  case False
  let ?Q = "resolution_list f"
  let ?g = "f\<lparr>resolution_list := []\<rparr>"
  have ft: "\<forall>e\<in>set ?Q. \<not> fatal (elem_outcome e f)" using nm by simp
  have fn: "filter (\<lambda>e. elem_outcome e f = Normal) ?Q = ?Q" using nm by simp
  have fs: "filter (\<lambda>e. stuck (elem_outcome e f)) ?Q = []"
    using nm by (auto simp: filter_empty_conv)
  from second_phase_pass[OF nf ft, of le] fn fs obtain le' f' where
    pass: "resolve_elems ?Q [] le ?g = Inr (?Q, le', f')"
    and fr: "same_frame f f'" and l': "resolution_list f' = []"
    by auto
  have loop: "resolution_loop (Suc n) le f = Some (Inr f')" for n
    using pass False l' by (simp add: resolution_loop_empty)
  have res: "\<forall>b < length (op_objs f). ElOp b \<in> set ?Q \<longrightarrow> resolved_at f' b"
    if fresh: "\<forall>b < length (op_objs f). attr_set (op_objs f ! b) = None"
  proof -
    have ob: "op_objs ?g = op_objs f" by simp
    have u: "\<forall>b < length (op_objs ?g). unset_or_resolved ?g b"
      using fresh by (simp add: unset_or_resolved_def)
    from resolve_elems_attr_sets[OF nf pass u]
    have "\<forall>b < length (op_objs f). ElOp b \<in> set ?Q \<and> resolve_outcome b ?g = Normal
             \<longrightarrow> resolved_at f' b" by simp
    moreover have "resolve_outcome b ?g = Normal" if "ElOp b \<in> set ?Q" for b
      using nm that resolve_outcome_frame[OF same_frame_clear, of b f] by force
    ultimately show ?thesis by blast
  qed
  show ?thesis
    using fr l' loop res False by (intro exI[of _ f']) blast
qed

section \<open>Properties of the loop in any state\<close>

lemma yaml_init_family [simp]: "yaml ((init_family spec)\<lparr>resolution_list := []\<rparr>) = spec"
  by (simp add: init_family_def)

lemma resolve_elems_resolved_subset:
  "resolve_elems es res le f = Inr (res', le', f') \<Longrightarrow> set res' \<subseteq> set res \<union> set es"
proof (induction es arbitrary: res le f)
  case Nil
  then show ?case by auto
next
  case (Cons e es)
  obtain c f1 where c: "elem_resolve e f = (c, f1)" by (cases "elem_resolve e f")
  show ?case
  proof (cases c)
    case Normal
    with Cons.prems c have "resolve_elems es (res @ [e]) le f1 = Inr (res', le', f')" by simp
    from Cons.IH[OF this] show ?thesis by auto
  next
    case (Raised x)
    with Cons.prems c have
      "resolve_elems es res (Some x) (add_unresolved e f1) = Inr (res', le', f')"
      by (auto split: if_splits)
    from Cons.IH[OF this] show ?thesis by auto
  qed
qed

lemma resolution_loop_success:
  "resolution_loop n le f = Some (Inr f') \<Longrightarrow> resolution_list f' = []"
proof (induction n arbitrary: le f)
  case 0
  then show ?case by (auto split: if_splits)
next
  case (Suc n)
  then show ?case
    by (auto split: if_splits sum.splits prod.splits)
qed

lemma second_phase_terminates:
  assumes nf: "ElFamily \<notin> set (resolution_list f)"
  shows "\<exists>r. resolution_loop (length (resolution_list f)) le f = Some r"
proof -
  let ?Q = "resolution_list f"
  consider (empty) "?Q = []"
    | (fatal) "\<exists>e\<in>set ?Q. fatal (elem_outcome e f)"
    | (normal) "?Q \<noteq> []" "\<forall>e\<in>set ?Q. elem_outcome e f = Normal"
    | (all_stuck) "?Q \<noteq> []" "\<forall>e\<in>set ?Q. stuck (elem_outcome e f)"
    | (mixed) "\<forall>e\<in>set ?Q. \<not> fatal (elem_outcome e f)"
        "\<exists>e\<in>set ?Q. stuck (elem_outcome e f)" "\<exists>e\<in>set ?Q. elem_outcome e f = Normal"
    using outcome_cases by blast
  then show ?thesis
  proof cases
    case empty
    then show ?thesis by (simp add: resolution_loop_empty)
  next
    case fatal
    then obtain m where "length ?Q = Suc m" by (cases ?Q) auto
    with second_phase_fatal[OF nf fatal, of le] show ?thesis by auto
  next
    case normal
    then obtain m where "length ?Q = Suc m" by (cases ?Q) auto
    with second_phase_normal[OF nf normal(2), of le] show ?thesis by auto
  next
    case all_stuck
    then obtain m where "length ?Q = Suc m" by (cases ?Q) auto
    with second_phase_all_stuck[OF nf all_stuck, of le] show ?thesis by auto
  next
    case mixed
    from mixed(2,3) obtain e1 e2 where e: "e1 \<in> set ?Q" "stuck (elem_outcome e1 f)"
      "e2 \<in> set ?Q" "elem_outcome e2 f = Normal" by blast
    then have "e1 \<noteq> e2" by auto
    with e(1,3) have "card (set ?Q) \<ge> 2"
      by (metis card_mono List.finite_set empty_subsetI insert_subset card_2_iff)
    then have "length ?Q \<ge> 2" using card_length[of ?Q] by linarith
    then obtain m where "length ?Q = Suc (Suc m)"
      by (metis Suc_le_D numeral_2_eq_2 Suc_le_mono)
    with second_phase_stuck[OF nf mixed(1,2), of le] show ?thesis by auto
  qed
qed

section \<open>The family after its own resolution step\<close>

lemma register_ops_fields [simp]:
  "resolution_list (register_ops es vs f) = resolution_list f
      @ map ElOp [length (op_objs f)..<length (op_objs f) + length es]"
  "op_objs (register_ops es vs f)
      = op_objs f @ map2 (\<lambda>e (r, s). SpecOperation_init e r s) es vs"
  "msgs (register_ops es vs f)
      = fold (\<lambda>(e, a). AList.update (oy_name e) a)
          (zip es [length (op_objs f)..<length (op_objs f) + length es]) (msgs f)"
  "attr_sets (register_ops es vs f) = attr_sets f"
  "yaml (register_ops es vs f) = yaml f"
  "ops (register_ops es vs f) = ops f"
  "req_by_value (register_ops es vs f) = req_by_value f"
  "rsp_by_value (register_ops es vs f) = rsp_by_value f"
  by (simp_all add: register_ops_def)

lemma attr_sets_loop_fields [simp]:
  "resolution_list (attr_sets_loop ss f) = resolution_list f @ concat (map set_elems ss)"
  "attr_sets (attr_sets_loop ss f)
      = fold (\<lambda>e. AList.update (sy_name e) (built_set e)) ss (attr_sets f)"
  "op_objs (attr_sets_loop ss f) = op_objs f"
  "msgs (attr_sets_loop ss f) = msgs f"
  "ops (attr_sets_loop ss f) = ops f"
  "req_by_value (attr_sets_loop ss f) = req_by_value f"
  "rsp_by_value (attr_sets_loop ss f) = rsp_by_value f"
  by (simp_all add: attr_sets_loop_eq)

lemma resolve_up_family_fields [simp]:
  "resolution_list (resolve_up_family f) = resolution_list f"
  "attr_sets (resolve_up_family f) = attr_sets f"
  "op_objs (resolve_up_family f) = op_objs f"
  "msgs (resolve_up_family f) = msgs f"
  "ops (resolve_up_family f) = ops f"
  "req_by_value (resolve_up_family f) = req_by_value f"
  "rsp_by_value (resolve_up_family f) = rsp_by_value f"
  by (simp_all add: resolve_up_family_def)

lemma catalog_loop_fields [simp]:
  "resolution_list (catalog_loop as f) = resolution_list f"
  "attr_sets (catalog_loop as f) = attr_sets f"
  "op_objs (catalog_loop as f) = op_objs f"
  "msgs (catalog_loop as f) = msgs f"
  "yaml (catalog_loop as f) = yaml f"
  "ops (catalog_loop as f) = fold (catalog_step_ops (op_objs f)) as (ops f)"
  "req_by_value (catalog_loop as f) = fold (catalog_step_req (op_objs f)) as (req_by_value f)"
  "rsp_by_value (catalog_loop as f) = fold (catalog_step_rsp (op_objs f)) as (rsp_by_value f)"
  by (simp_all add: catalog_loop_eq)

lemma init_family_fields [simp]:
  "resolution_list (init_family spec) = [ElFamily]"
  "attr_sets (init_family spec) = []"
  "op_objs (init_family spec) = []"
  "msgs (init_family spec) = []"
  "ops (init_family spec) = []"
  "req_by_value (init_family spec) = []"
  "rsp_by_value (init_family spec) = []"
  "yaml (init_family spec) = spec"
  by (simp_all add: init_family_def)

lemma family_resolve_init:
  assumes "parse_ok (operations spec)"
  shows "SpecFamily_resolve ((init_family spec)\<lparr>resolution_list := []\<rparr>)
           = (Normal, family_resolved spec)"
  using SpecFamily_resolve_ok[of "(init_family spec)\<lparr>resolution_list := []\<rparr>"] assms
  by (simp add: family_resolved_def)

lemma family_resolved_eq:
  assumes "parse_ok (operations spec)"
  shows "family_resolved spec
           = catalog_loop (map snd (msgs (family_built ((init_family spec)\<lparr>resolution_list := []\<rparr>))))
               (family_built ((init_family spec)\<lparr>resolution_list := []\<rparr>))"
  using SpecFamily_resolve_ok[of "(init_family spec)\<lparr>resolution_list := []\<rparr>"] assms
  by (simp add: family_resolved_def)

lemma id_values_length:
  "parse_ok b \<Longrightarrow> length (id_values b) = length (registered_ops b)"
  by (auto simp: parse_ok_def id_values_def registered_ops_def Let_def directional_values_length
      split: option.splits)

lemma family_resolved_list:
  assumes "parse_ok (operations spec)"
  shows "resolution_list (family_resolved spec)
           = concat (map set_elems (attribute_sets spec))
             @ map ElOp [0..<length (registered_ops (operations spec))]"
  by (simp add: family_resolved_eq[OF assms] family_built_def)

lemma family_resolved_objs:
  assumes "parse_ok (operations spec)"
  shows "op_objs (family_resolved spec)
           = map2 (\<lambda>e (r, s). SpecOperation_init e r s)
               (registered_ops (operations spec)) (id_values (operations spec))"
  by (simp add: family_resolved_eq[OF assms] family_built_def)

lemma family_resolved_length:
  assumes "parse_ok (operations spec)"
  shows "length (op_objs (family_resolved spec)) = length (registered_ops (operations spec))"
  by (simp add: family_resolved_objs[OF assms] id_values_length[OF assms])

lemma family_resolved_msgs:
  assumes "parse_ok (operations spec)"
  shows "msgs (family_resolved spec)
           = fold (\<lambda>(e, a). AList.update (oy_name e) a)
               (zip (registered_ops (operations spec))
                  [0..<length (registered_ops (operations spec))]) []"
  by (simp add: family_resolved_eq[OF assms] family_built_def)


lemma family_resolved_ops:
  assumes "parse_ok (operations spec)"
  shows "ops (family_resolved spec)
           = fold (catalog_step_ops (op_objs (family_resolved spec)))
               (map snd (msgs (family_resolved spec))) []"
    and "req_by_value (family_resolved spec)
           = fold (catalog_step_req (op_objs (family_resolved spec)))
               (map snd (msgs (family_resolved spec))) []"
    and "rsp_by_value (family_resolved spec)
           = fold (catalog_step_rsp (op_objs (family_resolved spec)))
               (map snd (msgs (family_resolved spec))) []"
  by (simp_all add: family_resolved_eq[OF assms] family_built_def)

lemma family_resolved_no_family:
  assumes "parse_ok (operations spec)"
  shows "ElFamily \<notin> set (resolution_list (family_resolved spec))"
  by (auto simp: family_resolved_list[OF assms] set_elems_def)

lemma family_resolved_fresh:
  assumes "parse_ok (operations spec)" and "b < length (op_objs (family_resolved spec))"
  shows "attr_set (op_objs (family_resolved spec) ! b) = None"
  using assms(2) unfolding family_resolved_objs[OF assms(1)]
  by (auto simp: SpecOperation_init_def Let_def split: prod.splits)

lemma first_pass_ok:
  assumes "parse_ok (operations spec)"
  shows "resolution_loop (Suc n) None (init_family spec)
           = resolution_loop n None (family_resolved spec)"
  by (simp add: family_resolve_init[OF assms])

lemma first_pass_raise:
  assumes "\<not> parse_ok (operations spec)"
  shows "resolution_loop (Suc n) None (init_family spec)
           = Some (Inl (Propagated (Exception ''Can't parse directional ops'')))"
proof -
  let ?f0 = "(init_family spec)\<lparr>resolution_list := []\<rparr>"
  from SpecFamily_resolve_raise[of ?f0] assms
  obtain g where "SpecFamily_resolve ?f0 = (Raised (Exception ''Can't parse directional ops''), g)"
    by (cases "SpecFamily_resolve ?f0") simp
  then show ?thesis by simp
qed

section \<open>The whole load\<close>

lemma SpecFamily_init_0 [simp]: "SpecFamily_init 0 spec = None"
  by (simp add: SpecFamily_init_def)

lemma SpecFamily_init_Suc_ok:
  "parse_ok (operations spec) \<Longrightarrow>
     SpecFamily_init (Suc n) spec = resolution_loop n None (family_resolved spec)"
  unfolding SpecFamily_init_def by (rule first_pass_ok)

lemma SpecFamily_init_Suc_raise:
  "\<not> parse_ok (operations spec) \<Longrightarrow>
     SpecFamily_init (Suc n) spec
       = Some (Inl (Propagated (Exception ''Can't parse directional ops'')))"
  unfolding SpecFamily_init_def by (rule first_pass_raise)

lemma resolution_loop_unique:
  assumes "resolution_loop n le f = Some r" and "resolution_loop m le f = Some r'"
  shows "r = r'"
proof -
  from resolution_loop_mono[OF assms(1), of m] resolution_loop_mono[OF assms(2), of n]
  show ?thesis by (simp add: add.commute)
qed

lemma family_resolved_ops_listed:
  assumes ok: "parse_ok (operations spec)" and b: "b < length (op_objs (family_resolved spec))"
  shows "ElOp b \<in> set (resolution_list (family_resolved spec))"
  using b by (simp add: family_resolved_list[OF ok] family_resolved_length[OF ok])

text \<open>What a successful load has gone through.\<close>

lemma load_success:
  assumes load: "SpecFamily_init n spec = Some (Inr f)"
  shows "parse_ok (operations spec)"
    and "same_frame (family_resolved spec) f"
    and "\<forall>b < length (op_objs f). resolve_outcome b f = Normal \<and> resolved_at f b"
proof -
  let ?F = "family_resolved spec"
  let ?Q = "resolution_list ?F"
  from load obtain m where n: "n = Suc m" by (cases n) simp_all
  show ok: "parse_ok (operations spec)"
  proof (rule ccontr)
    assume "\<not> parse_ok (operations spec)"
    from SpecFamily_init_Suc_raise[OF this, of m] load n show False by simp
  qed
  from load n have loop: "resolution_loop m None ?F = Some (Inr f)"
    by (simp add: SpecFamily_init_Suc_ok[OF ok])
  have nf: "ElFamily \<notin> set ?Q" by (rule family_resolved_no_family[OF ok])
  have nm: "\<forall>e\<in>set ?Q. elem_outcome e ?F = Normal"
  proof (rule ccontr)
    assume "\<not> ?thesis"
    then consider (fatal) "\<exists>e\<in>set ?Q. fatal (elem_outcome e ?F)"
      | (stuck) "\<forall>e\<in>set ?Q. \<not> fatal (elem_outcome e ?F)" "\<exists>e\<in>set ?Q. stuck (elem_outcome e ?F)"
      using outcome_cases by blast
    then show False
    proof cases
      case fatal
      from second_phase_fatal[OF nf fatal, of None] obtain x where
        "resolution_loop (Suc 0) None ?F = Some (Inl (Propagated x))" by blast
      from resolution_loop_unique[OF loop this] show False by simp
    next
      case stuck
      from second_phase_stuck[OF nf stuck, of None] obtain x where
        "resolution_loop (Suc (Suc 0)) None ?F = Some (Inl (Deadlock (Some x)))" by blast
      from resolution_loop_unique[OF loop this] show False by simp
    qed
  qed
  from second_phase_normal[OF nf nm, of None] obtain f' where
    fr: "same_frame ?F f'" and l: "resolution_loop (Suc 0) None ?F = Some (Inr f')"
    and res: "(\<forall>b < length (op_objs ?F). attr_set (op_objs ?F ! b) = None) \<longrightarrow>
                (\<forall>b < length (op_objs ?F). ElOp b \<in> set ?Q \<longrightarrow> resolved_at f' b)"
    by blast
  from resolution_loop_unique[OF loop l] have f: "f = f'" by simp
  show frame: "same_frame ?F f" using fr f by simp
  have len: "length (op_objs f) = length (op_objs ?F)"
    using same_frame_fields(7)[OF frame] by simp
  show "\<forall>b < length (op_objs f). resolve_outcome b f = Normal \<and> resolved_at f b"
  proof (intro allI impI conjI)
    fix b assume "b < length (op_objs f)"
    then have b: "b < length (op_objs ?F)" using len by simp
    from family_resolved_ops_listed[OF ok b] nm
    have "resolve_outcome b ?F = Normal" by force
    then show "resolve_outcome b f = Normal"
      using resolve_outcome_frame[OF frame, of b] by simp
    from res family_resolved_fresh[OF ok] family_resolved_ops_listed[OF ok b] b f
    show "resolved_at f b" by blast
  qed
qed

text \<open>When every element resolves, the load succeeds.\<close>

lemma load_all_normal:
  assumes ok: "parse_ok (operations spec)"
    and nm: "\<forall>e\<in>set (resolution_list (family_resolved spec)).
               elem_outcome e (family_resolved spec) = Normal"
  shows "\<exists>f. \<forall>n. SpecFamily_init (Suc (Suc n)) spec = Some (Inr f)"
proof -
  from second_phase_normal[OF family_resolved_no_family[OF ok] nm, of None]
  obtain f' where "\<forall>n. resolution_loop (Suc n) None (family_resolved spec) = Some (Inr f')"
    by blast
  then show ?thesis
    by (intro exI[of _ f']) (simp add: SpecFamily_init_Suc_ok[OF ok] del: resolution_loop.simps)
qed


lemma same_frame_map:
  assumes "same_frame f g" and "\<And>o'. h (op_frame o') = h o'"
  shows "map h (op_objs f) = map h (op_objs g)"
proof (rule nth_equalityI)
  show "length (map h (op_objs f)) = length (map h (op_objs g))"
    using same_frame_fields(7)[OF assms(1)] by simp
next
  fix i assume "i < length (map h (op_objs f))"
  then have i: "i < length (op_objs f)" "i < length (op_objs g)"
    using same_frame_fields(7)[OF assms(1)] by simp_all
  from assms(1) have "op_frame (op_objs f ! i) = op_frame (op_objs g ! i)"
    by (simp add: same_frame_def)
  then have "h (op_objs f ! i) = h (op_objs g ! i)"
    using assms(2)[of "op_objs f ! i"] assms(2)[of "op_objs g ! i"] by simp
  with i show "map h (op_objs f) ! i = map h (op_objs g) ! i" by simp
qed

lemma load_success_objs:
  assumes "SpecFamily_init n spec = Some (Inr f)" and "\<And>o'. h (op_frame o') = h o'"
  shows "map h (op_objs f) = map h (op_objs (family_resolved spec))"
  by (rule same_frame_map[OF same_frame_sym[OF load_success(2)[OF assms(1)]]]) (rule assms(2))

section \<open>Identifiers under the unified policy\<close>

lemma unified_parse_ok:
  "enum_model b = None \<or> enum_model b = Some ''unified'' \<Longrightarrow> parse_ok b"
  by (auto simp: parse_ok_def)

lemma unified_registered:
  "enum_model b = None \<or> enum_model b = Some ''unified'' \<Longrightarrow> registered_ops b = ops_list b"
  by (auto simp: registered_ops_def)

lemma unified_id_values:
  assumes "enum_model b = None \<or> enum_model b = Some ''unified''"
    and "\<forall>e\<in>set (ops_list b). oy_value e = None"
  shows "id_values b = map (\<lambda>i. (Some (int i), Some (int i))) [0..<length (ops_list b)]"
proof -
  from assms(2) have "\<forall>x\<in>set (map oy_value (ops_list b)). x = None" by simp
  from counter_values_none[OF this, of 0]
  have "counter_values 0 (map oy_value (ops_list b)) = map int [0..<length (ops_list b)]"
    by simp
  with assms(1) show ?thesis by (auto simp: id_values_def)
qed

lemma op_frame_ids [simp]:
  "op_yaml (op_frame o') = op_yaml o'" "req_value (op_frame o') = req_value o'"
  "rsp_value (op_frame o') = rsp_value o'" "op_value (op_frame o') = op_value o'"
  by (simp_all add: op_frame_def)

section \<open>Single operations of the resolved family\<close>

lemma family_resolved_op:
  assumes ok: "parse_ok (operations spec)"
    and b: "b < length (registered_ops (operations spec))"
  shows "op_objs (family_resolved spec) ! b
           = SpecOperation_init (registered_ops (operations spec) ! b)
               (fst (id_values (operations spec) ! b)) (snd (id_values (operations spec) ! b))"
  using b id_values_length[OF ok]
  by (simp add: family_resolved_objs[OF ok] split_beta)

lemma set_elems_outcome:
  "e \<in> set (concat (map set_elems ss)) \<Longrightarrow> elem_outcome e f = Normal"
  by (auto simp: set_elems_def)


section \<open>The dictionaries of a loaded family\<close>

lemma in_update_cases:
  "(n, a) \<in> set (AList.update k v al) \<Longrightarrow> (n, a) = (k, v) \<or> (n, a) \<in> set al"
  by (induction al) (auto split: if_splits)

lemma fold_update_keys:
  "fst ` set (fold (\<lambda>p. AList.update (kf p) (vf p)) ps l) = fst ` set l \<union> kf ` set ps"
  by (induction ps arbitrary: l) (auto simp: dom_update)

lemma fold_update_mem:
  "(n, a) \<in> set (fold (\<lambda>p. AList.update (kf p) (vf p)) ps l) \<Longrightarrow>
     (n, a) \<in> set l \<or> (\<exists>p\<in>set ps. n = kf p \<and> a = vf p)"
proof (induction ps arbitrary: l)
  case Nil
  then show ?case by simp
next
  case (Cons p ps)
  from Cons.IH[of "AList.update (kf p) (vf p) l"] Cons.prems
  have "(n, a) \<in> set (AList.update (kf p) (vf p) l) \<or> (\<exists>p\<in>set ps. n = kf p \<and> a = vf p)"
    by simp
  then show ?case using in_update_cases[of n a "kf p" "vf p" l] by auto
qed

lemma msgs_fold_eq:
  "fold (\<lambda>(e, a). AList.update (oy_name e) a) ps l
     = fold (\<lambda>p. AList.update (oy_name (fst p)) (snd p)) ps l"
  by (simp add: case_prod_unfold)

lemma family_resolved_msgs_keys:
  assumes ok: "parse_ok (operations spec)"
  shows "fst ` set (msgs (family_resolved spec)) = oy_name ` set (registered_ops (operations spec))"
proof -
  let ?es = "registered_ops (operations spec)"
  have "map fst (zip ?es [0..<length ?es]) = ?es" by simp
  then have "fst ` set (zip ?es [0..<length ?es]) = set ?es" by (metis set_map)
  moreover have "(\<lambda>p. oy_name (fst p)) ` set (zip ?es [0..<length ?es])
      = oy_name ` (fst ` set (zip ?es [0..<length ?es]))"
    by (simp add: image_image)
  ultimately have "(\<lambda>p. oy_name (fst p)) ` set (zip ?es [0..<length ?es]) = oy_name ` set ?es"
    by simp
  then show ?thesis
    by (simp add: family_resolved_msgs[OF ok] msgs_fold_eq fold_update_keys)
qed

lemma family_resolved_msgs_mem:
  assumes ok: "parse_ok (operations spec)" and "(n, a) \<in> set (msgs (family_resolved spec))"
  shows "a < length (registered_ops (operations spec))
       \<and> n = oy_name (registered_ops (operations spec) ! a)"
proof -
  let ?es = "registered_ops (operations spec)"
  from assms(2) fold_update_mem[of n a "\<lambda>p. oy_name (fst p)" snd "zip ?es [0..<length ?es]" "[]"]
  obtain p where "p \<in> set (zip ?es [0..<length ?es])" "n = oy_name (fst p)" "a = snd p"
    by (auto simp: family_resolved_msgs[OF ok] msgs_fold_eq)
  then show ?thesis by (auto simp: in_set_zip)
qed

lemma catalog_ops_mem:
  "(n, a) \<in> set (fold (catalog_step_ops os) as l) \<Longrightarrow>
     (n, a) \<in> set l
     \<or> (a \<in> set as \<and> \<not> is_async (os ! a) \<and> oy_attribute_set (op_yaml (os ! a)) \<noteq> None
          \<and> n = op_name (os ! a))"
proof (induction as arbitrary: l)
  case Nil
  then show ?case by simp
next
  case (Cons b as)
  from Cons.IH[of "catalog_step_ops os b l"] Cons.prems
  consider "(n, a) \<in> set (catalog_step_ops os b l)"
    | "a \<in> set as \<and> \<not> is_async (os ! a) \<and> oy_attribute_set (op_yaml (os ! a)) \<noteq> None
          \<and> n = op_name (os ! a)" by auto
  then show ?case
  proof cases
    case 1
    then show ?thesis
      using in_update_cases[of n a "op_name (os ! b)" b l]
      by (auto simp: catalog_step_ops_def split: if_splits)
  next
    case 2
    then show ?thesis by simp
  qed
qed

lemma catalog_ops_closed:
  "distinct (map fst l @ map (\<lambda>a. op_name (os ! a)) as) \<Longrightarrow>
     fold (catalog_step_ops os) as l
       = l @ map (\<lambda>a. (op_name (os ! a), a))
               (filter (\<lambda>a. \<not> is_async (os ! a) \<and> oy_attribute_set (op_yaml (os ! a)) \<noteq> None) as)"
proof (induction as arbitrary: l)
  case Nil
  then show ?case by simp
next
  case (Cons b as)
  have rest: "distinct (map fst l @ map (\<lambda>a. op_name (os ! a)) as)" using Cons.prems by auto
  show ?case
  proof (cases "is_async (os ! b)")
    case True
    from Cons.IH[OF rest] True show ?thesis by (simp add: catalog_step_ops_def)
  next
    case False
    show ?thesis
    proof (cases "oy_attribute_set (op_yaml (os ! b))")
      case None
      from Cons.IH[OF rest] False None show ?thesis by (simp add: catalog_step_ops_def)
    next
      case (Some y)
      have fresh: "op_name (os ! b) \<notin> fst ` set l" using Cons.prems by auto
      then have upd: "AList.update (op_name (os ! b)) b l = l @ [(op_name (os ! b), b)]"
        by (induction l) auto
      have "distinct (map fst (l @ [(op_name (os ! b), b)]) @ map (\<lambda>a. op_name (os ! a)) as)"
        using Cons.prems by auto
      from Cons.IH[OF this] upd False Some show ?thesis by (simp add: catalog_step_ops_def)
    qed
  qed
qed

lemma family_resolved_names:
  assumes ok: "parse_ok (operations spec)"
  shows "map op_name (op_objs (family_resolved spec))
           = map oy_name (registered_ops (operations spec))"
    and "map op_yaml (op_objs (family_resolved spec)) = registered_ops (operations spec)"
proof -
  show "map op_name (op_objs (family_resolved spec))
           = map oy_name (registered_ops (operations spec))"
    by (rule nth_equalityI)
      (simp_all add: family_resolved_length[OF ok] family_resolved_op[OF ok])
  show "map op_yaml (op_objs (family_resolved spec)) = registered_ops (operations spec)"
    by (rule nth_equalityI)
      (simp_all add: family_resolved_length[OF ok] family_resolved_op[OF ok]
        SpecOperation_init_def Let_def)
qed

text \<open>The operations of a loaded family, against the document.\<close>

lemma loaded_ops:
  assumes load: "SpecFamily_init n spec = Some (Inr f)"
  shows "length (op_objs f) = length (registered_ops (operations spec))"
    and "map op_name (op_objs f) = map oy_name (registered_ops (operations spec))"
    and "map op_yaml (op_objs f) = registered_ops (operations spec)"
    and "b < length (op_objs f) \<Longrightarrow> op_name (op_objs f ! b) = oy_name (op_yaml (op_objs f ! b))"
    and "b < length (op_objs f) \<Longrightarrow>
           is_resv (op_objs f ! b) = (\<not> is_async (op_objs f ! b) \<and> \<not> is_call (op_objs f ! b))"
proof -
  let ?F = "family_resolved spec"
  note ok = load_success(1)[OF load]
  note fr = load_success(2)[OF load]
  show len: "length (op_objs f) = length (registered_ops (operations spec))"
    using same_frame_fields(7)[OF fr] family_resolved_length[OF ok] by simp
  have "map op_name (op_objs f) = map op_name (op_objs ?F)"
    by (rule load_success_objs[OF load]) (simp add: op_frame_def)
  then show names: "map op_name (op_objs f) = map oy_name (registered_ops (operations spec))"
    by (simp add: family_resolved_names(1)[OF ok])
  have "map op_yaml (op_objs f) = map op_yaml (op_objs ?F)"
    by (rule load_success_objs[OF load]) simp
  then show yamls: "map op_yaml (op_objs f) = registered_ops (operations spec)"
    by (simp add: family_resolved_names(2)[OF ok])
  show "op_name (op_objs f ! b) = oy_name (op_yaml (op_objs f ! b))" if b: "b < length (op_objs f)"
  proof -
    have "op_name (op_objs f ! b) = map op_name (op_objs f) ! b" using b by simp
    also have "\<dots> = oy_name (registered_ops (operations spec) ! b)"
      using b len by (simp add: names)
    also have "registered_ops (operations spec) ! b = map op_yaml (op_objs f) ! b"
      by (simp add: yamls)
    finally show ?thesis using b by simp
  qed
  show "is_resv (op_objs f ! b) = (\<not> is_async (op_objs f ! b) \<and> \<not> is_call (op_objs f ! b))"
    if b: "b < length (op_objs f)"
  proof -
    from b len have b': "b < length (registered_ops (operations spec))" by simp
    have "is_resv (op_objs ?F ! b) = (\<not> is_async (op_objs ?F ! b) \<and> \<not> is_call (op_objs ?F ! b))"
      by (simp add: family_resolved_op[OF ok b'] SpecOperation_init_def Let_def)
    then show ?thesis
      using same_frame_op_fields(3,4,5)[OF fr, of b] by simp
  qed
qed

text \<open>The two dictionaries of names when entries share a name.\<close>

lemma fold_update_distinct:
  "distinct (map fst l) \<Longrightarrow>
     distinct (map fst (fold (\<lambda>p. AList.update (kf p) (vf p)) ps l))"
  by (induction ps arbitrary: l) (simp_all add: distinct_update)

lemma msgs_fold_lookup:
  "map_of (fold (\<lambda>p. AList.update (oy_name (fst p)) (snd p)) (zip es [0..<length es]) []) k
     = Some b
   \<longleftrightarrow> b < length es \<and> oy_name (es ! b) = k
       \<and> (\<forall>c. b < c \<and> c < length es \<longrightarrow> oy_name (es ! c) \<noteq> k)"
proof (induction es arbitrary: b rule: rev_induct)
  case Nil
  then show ?case by simp
next
  case (snoc e es)
  let ?m = "fold (\<lambda>p. AList.update (oy_name (fst p)) (snd p)) (zip es [0..<length es]) []"
  have z: "zip (es @ [e]) [0..<length (es @ [e])] = zip es [0..<length es] @ [(e, length es)]"
    by simp
  have m: "map_of (fold (\<lambda>p. AList.update (oy_name (fst p)) (snd p))
              (zip (es @ [e]) [0..<length (es @ [e])]) []) k
             = (if k = oy_name e then Some (length es) else map_of ?m k)"
    unfolding z by (simp add: update_conv')
  show ?case
  proof (cases "k = oy_name e")
    case True
    have eqv: "b = length es \<longleftrightarrow> b < length (es @ [e]) \<and> oy_name ((es @ [e]) ! b) = k
       \<and> (\<forall>c. b < c \<and> c < length (es @ [e]) \<longrightarrow> oy_name ((es @ [e]) ! c) \<noteq> k)"
    proof
      assume "b = length es"
      with True show "b < length (es @ [e]) \<and> oy_name ((es @ [e]) ! b) = k
       \<and> (\<forall>c. b < c \<and> c < length (es @ [e]) \<longrightarrow> oy_name ((es @ [e]) ! c) \<noteq> k)"
        by auto
    next
      assume r: "b < length (es @ [e]) \<and> oy_name ((es @ [e]) ! b) = k
       \<and> (\<forall>c. b < c \<and> c < length (es @ [e]) \<longrightarrow> oy_name ((es @ [e]) ! c) \<noteq> k)"
      show "b = length es"
      proof (rule ccontr)
        assume "b \<noteq> length es"
        with r have bl: "b < length es" by simp
        from r have "\<forall>c. b < c \<and> c < length (es @ [e]) \<longrightarrow> oy_name ((es @ [e]) ! c) \<noteq> k"
          by simp
        from this[rule_format, of "length es"] bl
        have "oy_name ((es @ [e]) ! length es) \<noteq> k" by simp
        with True show False by simp
      qed
    qed
    have a: "map_of (fold (\<lambda>p. AList.update (oy_name (fst p)) (snd p))
              (zip (es @ [e]) [0..<length (es @ [e])]) []) k = Some b \<longleftrightarrow> b = length es"
      unfolding m using True by auto
    show ?thesis unfolding a by (rule eqv)
  next
    case False
    have "(b < length es \<and> oy_name (es ! b) = k
            \<and> (\<forall>c. b < c \<and> c < length es \<longrightarrow> oy_name (es ! c) \<noteq> k))
       \<longleftrightarrow> (b < length (es @ [e]) \<and> oy_name ((es @ [e]) ! b) = k
            \<and> (\<forall>c. b < c \<and> c < length (es @ [e]) \<longrightarrow> oy_name ((es @ [e]) ! c) \<noteq> k))"
      using False by (auto simp: nth_append less_Suc_eq)
    with False m snoc.IH[of b] show ?thesis by simp
  qed
qed

lemma family_resolved_msgs_lookup:
  assumes ok: "parse_ok (operations spec)"
  shows "map_of (msgs (family_resolved spec)) k = Some b
   \<longleftrightarrow> b < length (registered_ops (operations spec))
       \<and> oy_name (registered_ops (operations spec) ! b) = k
       \<and> (\<forall>c. b < c \<and> c < length (registered_ops (operations spec))
              \<longrightarrow> oy_name (registered_ops (operations spec) ! c) \<noteq> k)"
  unfolding family_resolved_msgs[OF ok] msgs_fold_eq by (rule msgs_fold_lookup)

lemma family_resolved_msgs_keys_distinct:
  assumes ok: "parse_ok (operations spec)"
  shows "distinct (map fst (msgs (family_resolved spec)))"
  unfolding family_resolved_msgs[OF ok] msgs_fold_eq by (rule fold_update_distinct) simp

lemma family_resolved_msgs_names:
  assumes ok: "parse_ok (operations spec)"
  shows "map (\<lambda>a. op_name (op_objs (family_resolved spec) ! a))
           (map snd (msgs (family_resolved spec)))
         = map fst (msgs (family_resolved spec))"
proof -
  have "op_name (op_objs (family_resolved spec) ! snd p) = fst p"
    if "p \<in> set (msgs (family_resolved spec))" for p
  proof -
    from that have "(fst p, snd p) \<in> set (msgs (family_resolved spec))" by simp
    from family_resolved_msgs_mem[OF ok this]
    show ?thesis by (simp add: family_resolved_op[OF ok])
  qed
  then show ?thesis by simp
qed

lemma family_resolved_ops_closed:
  assumes ok: "parse_ok (operations spec)"
  shows "ops (family_resolved spec)
           = map (\<lambda>a. (op_name (op_objs (family_resolved spec) ! a), a))
               (filter (\<lambda>a. \<not> is_async (op_objs (family_resolved spec) ! a)
                        \<and> oy_attribute_set (op_yaml (op_objs (family_resolved spec) ! a)) \<noteq> None)
                  (map snd (msgs (family_resolved spec))))"
proof -
  let ?F = "family_resolved spec"
  have "distinct (map fst ([] :: (string \<times> nat) list)
             @ map (\<lambda>a. op_name (op_objs ?F ! a)) (map snd (msgs ?F)))"
    unfolding family_resolved_msgs_names[OF ok]
    using family_resolved_msgs_keys_distinct[OF ok] by simp
  from catalog_ops_closed[OF this] show ?thesis
    by (simp add: family_resolved_ops(1)[OF ok])
qed

lemma family_resolved_ops_keys_distinct:
  assumes ok: "parse_ok (operations spec)"
  shows "distinct (map fst (ops (family_resolved spec)))"
proof -
  let ?F = "family_resolved spec"
  have "map fst (ops ?F)
          = map (\<lambda>a. op_name (op_objs ?F ! a))
              (filter (\<lambda>a. \<not> is_async (op_objs ?F ! a)
                        \<and> oy_attribute_set (op_yaml (op_objs ?F ! a)) \<noteq> None)
                 (map snd (msgs ?F)))"
    unfolding family_resolved_ops_closed[OF ok] by (simp add: comp_def)
  moreover have "distinct (map (\<lambda>a. op_name (op_objs ?F ! a)) (map snd (msgs ?F)))"
    unfolding family_resolved_msgs_names[OF ok]
    by (rule family_resolved_msgs_keys_distinct[OF ok])
  ultimately show ?thesis by (simp add: distinct_map_filter del: map_map)
qed

section \<open>Evaluating a notification in a concrete document\<close>


section \<open>Progress of a pass and the number of elements\<close>

lemma second_phase_progress:
  assumes nf: "ElFamily \<notin> set (resolution_list f)"
    and pass: "resolve_elems (resolution_list f) [] le (f\<lparr>resolution_list := []\<rparr>)
                 = Inr (res, le', f')"
  shows "set res \<inter> set (resolution_list f') = {}
       \<and> length res + length (resolution_list f') = length (resolution_list f)"
proof -
  let ?Q = "resolution_list f"
  let ?g = "f\<lparr>resolution_list := []\<rparr>"
  have ft: "\<forall>e\<in>set ?Q. \<not> fatal (elem_outcome e f)"
  proof (rule ccontr)
    assume "\<not> ?thesis"
    then have "\<exists>e\<in>set ?Q. fatal (elem_outcome e ?g)"
      using nf elem_outcome_clear by metis
    from resolve_elems_fatal[OF nf this, of "[]" le] pass show False by simp
  qed
  from second_phase_pass[OF nf ft, of le] pass
  have r: "res = filter (\<lambda>e. elem_outcome e f = Normal) ?Q"
    and l: "resolution_list f' = filter (\<lambda>e. stuck (elem_outcome e f)) ?Q"
    by auto
  have "filter (\<lambda>e. stuck (elem_outcome e f)) ?Q = filter (\<lambda>e. \<not> elem_outcome e f = Normal) ?Q"
    using ft outcome_cases by (intro filter_cong) auto
  then have l': "resolution_list f' = filter (\<lambda>e. \<not> elem_outcome e f = Normal) ?Q"
    using l by simp
  have "set res \<inter> set (resolution_list f') = {}" unfolding r l' by auto
  moreover have "length res + length (resolution_list f') = length ?Q"
    unfolding r l' by (rule sum_length_filter_compl)
  ultimately show ?thesis by simp
qed

lemma length_set_elems: "length (set_elems s) = Suc (length (sy_attributes s))"
  by (simp add: set_elems_def)

lemma num_elements_count:
  assumes "parse_ok (operations spec)"
  shows "num_elements spec
           = 1 + (\<Sum>s\<leftarrow>attribute_sets spec. 1 + length (sy_attributes s))
               + length (registered_ops (operations spec))"
  by (simp add: num_elements_def family_resolved_list[OF assms] length_concat comp_def
        length_set_elems)

section \<open>The state of the loop from pass to pass\<close>

lemma resolve_elems_snoc:
  "resolve_elems (q @ [e]) res le f =
     (case resolve_elems q res le f of
        Inl x \<Rightarrow> Inl x
      | Inr (res1, le1, g) \<Rightarrow>
          (case elem_resolve e g of
             (Raised x, g') \<Rightarrow>
               if is_deferred x then Inr (res1, Some x, add_unresolved e g') else Inl x
           | (Normal, g') \<Rightarrow> Inr (res1 @ [e], le1, g')))"
proof (induction q arbitrary: res le f)
  case Nil
  show ?case by (simp split: prod.splits completion.splits)
next
  case (Cons a q)
  obtain c f1 where c: "elem_resolve a f = (c, f1)" by (cases "elem_resolve a f")
  show ?case
  proof (cases c)
    case Normal
    with c Cons.IH[of "res @ [a]" le f1] show ?thesis by simp
  next
    case (Raised x)
    with c Cons.IH[of res "Some x" "add_unresolved a f1"] show ?thesis by simp
  qed
qed

lemma resolve_elems_none_resolved:
  assumes ne: "q \<noteq> []" and pass: "resolve_elems q [] le f = Inr ([], le', f')"
  shows "\<exists>x le1 g g'. is_deferred x \<and> le' = Some x
           \<and> resolve_elems (butlast q) [] le f = Inr ([], le1, g)
           \<and> elem_resolve (last q) g = (Raised x, g')"
proof -
  from ne have q: "q = butlast q @ [last q]" by simp
  show ?thesis
  proof (cases "resolve_elems (butlast q) [] le f")
    case (Inl x)
    with pass resolve_elems_snoc[of "butlast q" "last q" "[]" le f] q show ?thesis by simp
  next
    case (Inr t)
    obtain res1 le1 g where t: "t = (res1, le1, g)" by (cases t)
    obtain c g' where c: "elem_resolve (last q) g = (c, g')"
      by (cases "elem_resolve (last q) g")
    from pass q have s: "resolve_elems (butlast q @ [last q]) [] le f = Inr ([], le', f')"
      by simp
    show ?thesis
    proof (cases c)
      case Normal
      with s Inr t c show ?thesis by (simp add: resolve_elems_snoc)
    next
      case (Raised x)
      with s Inr t c have "is_deferred x" "res1 = []" "le' = Some x"
        by (auto simp: resolve_elems_snoc split: if_splits)
      with Inr t c Raised show ?thesis by simp
    qed
  qed
qed

lemma resolve_elems_Inl_split:
  "resolve_elems q res le f = Inl x \<Longrightarrow>
     \<exists>pre e rest res1 le1 g g'. q = pre @ e # rest
        \<and> resolve_elems pre res le f = Inr (res1, le1, g)
        \<and> elem_resolve e g = (Raised x, g') \<and> \<not> is_deferred x"
proof (induction q arbitrary: res le f)
  case Nil
  then show ?case by simp
next
  case (Cons a q)
  obtain c f1 where c: "elem_resolve a f = (c, f1)" by (cases "elem_resolve a f")
  show ?case
  proof (cases c)
    case Normal
    with Cons.prems c have "resolve_elems q (res @ [a]) le f1 = Inl x" by simp
    from Cons.IH[OF this] obtain d e rest res1 le1 g g' where
      h: "q = d @ e # rest" "resolve_elems d (res @ [a]) le f1 = Inr (res1, le1, g)"
         "elem_resolve e g = (Raised x, g')" "\<not> is_deferred x" by blast
    have "a # q = (a # d) @ e # rest" using h(1) by simp
    moreover have "resolve_elems (a # d) res le f = Inr (res1, le1, g)"
      using c Normal h(2) by simp
    ultimately show ?thesis using h(3,4) by blast
  next
    case (Raised y)
    show ?thesis
    proof (cases "is_deferred y")
      case True
      with Cons.prems c Raised have
        "resolve_elems q res (Some y) (add_unresolved a f1) = Inl x" by simp
      from Cons.IH[OF this] obtain d e rest res1 le1 g g' where
        h: "q = d @ e # rest"
           "resolve_elems d res (Some y) (add_unresolved a f1) = Inr (res1, le1, g)"
           "elem_resolve e g = (Raised x, g')" "\<not> is_deferred x" by blast
      have "a # q = (a # d) @ e # rest" using h(1) by simp
      moreover have "resolve_elems (a # d) res le f = Inr (res1, le1, g)"
        using c Raised True h(2) by simp
      ultimately show ?thesis using h(3,4) by blast
    next
      case False
      with Cons.prems c Raised have x: "x = y" by simp
      have "a # q = [] @ a # q" by simp
      moreover have "resolve_elems [] res le f = Inr (res, le, f)" by simp
      ultimately show ?thesis using c Raised False x by blast
    qed
  qed
qed

lemma loop_state_loop:
  "loop_state k le f = Some (le', f') \<Longrightarrow>
     resolution_loop (k + n) le f = resolution_loop n le' f'"
proof (induction k arbitrary: le f)
  case 0
  then show ?case by simp
next
  case (Suc k)
  from Suc.prems have ne: "resolution_list f \<noteq> []" by (auto split: if_splits)
  from Suc.prems ne obtain res le1 f1 where
    p: "resolve_elems (resolution_list f) [] le (f\<lparr>resolution_list := []\<rparr>) = Inr (res, le1, f1)"
    and r: "res \<noteq> []" and s: "loop_state k le1 f1 = Some (le', f')"
    by (auto split: sum.splits prod.splits if_splits)
  from Suc.IH[OF s] ne p r show ?case by simp
qed

lemma resolution_loop_deadlock_last:
  "resolution_loop n le f = Some (Inl (Deadlock l)) \<Longrightarrow>
     \<exists>x k le0 f0 le1 g g'. l = Some x \<and> is_deferred x
        \<and> loop_state k le f = Some (le0, f0) \<and> resolution_list f0 \<noteq> []
        \<and> resolve_elems (butlast (resolution_list f0)) [] le0 (f0\<lparr>resolution_list := []\<rparr>)
            = Inr ([], le1, g)
        \<and> elem_resolve (last (resolution_list f0)) g = (Raised x, g')"
proof (induction n arbitrary: le f)
  case 0
  then show ?case by (auto split: if_splits)
next
  case (Suc n)
  from Suc.prems have ne: "resolution_list f \<noteq> []" by (auto split: if_splits)
  show ?case
  proof (cases "resolve_elems (resolution_list f) [] le (f\<lparr>resolution_list := []\<rparr>)")
    case (Inl x)
    with Suc.prems ne show ?thesis by simp
  next
    case (Inr t)
    obtain res le' f' where t: "t = (res, le', f')" by (cases t)
    show ?thesis
    proof (cases "res = []")
      case True
      from Suc.prems ne Inr t True have l: "l = le'" by simp
      from resolve_elems_none_resolved[OF ne Inr[unfolded t True]]
      obtain x le1 g g' where h: "is_deferred x" "le' = Some x"
        "resolve_elems (butlast (resolution_list f)) [] le (f\<lparr>resolution_list := []\<rparr>)
           = Inr ([], le1, g)"
        "elem_resolve (last (resolution_list f)) g = (Raised x, g')" by blast
      have "loop_state 0 le f = Some (le, f)" by simp
      with l h ne show ?thesis by blast
    next
      case False
      with Suc.prems ne Inr t
      have "resolution_loop n le' f' = Some (Inl (Deadlock l))" by simp
      from Suc.IH[OF this] obtain x k le0 f0 le1 g g' where
        h: "l = Some x" "is_deferred x" "loop_state k le' f' = Some (le0, f0)"
           "resolution_list f0 \<noteq> []"
           "resolve_elems (butlast (resolution_list f0)) [] le0 (f0\<lparr>resolution_list := []\<rparr>)
              = Inr ([], le1, g)"
           "elem_resolve (last (resolution_list f0)) g = (Raised x, g')" by blast
      have "loop_state (Suc k) le f = Some (le0, f0)"
        using ne Inr t False h(3) by simp
      with h show ?thesis by blast
    qed
  qed
qed

lemma resolution_loop_pass_outcome:
  assumes ne: "resolution_list f \<noteq> []"
  shows "(\<exists>x pre e rest res le1 g g'. \<not> is_deferred x
             \<and> resolution_loop (Suc n) le f = Some (Inl (Propagated x))
             \<and> resolution_list f = pre @ e # rest
             \<and> resolve_elems pre [] le (f\<lparr>resolution_list := []\<rparr>) = Inr (res, le1, g)
             \<and> elem_resolve e g = (Raised x, g'))
       \<or> (\<exists>x le1 g g'. is_deferred x
             \<and> resolution_loop (Suc n) le f = Some (Inl (Deadlock (Some x)))
             \<and> resolve_elems (butlast (resolution_list f)) [] le (f\<lparr>resolution_list := []\<rparr>)
                 = Inr ([], le1, g)
             \<and> elem_resolve (last (resolution_list f)) g = (Raised x, g'))
       \<or> (\<exists>res le' f'. res \<noteq> [] \<and> set res \<subseteq> set (resolution_list f)
             \<and> resolve_elems (resolution_list f) [] le (f\<lparr>resolution_list := []\<rparr>)
                 = Inr (res, le', f')
             \<and> resolution_loop (Suc n) le f = resolution_loop n le' f')"
proof (cases "resolve_elems (resolution_list f) [] le (f\<lparr>resolution_list := []\<rparr>)")
  case (Inl x)
  from resolve_elems_Inl_split[OF Inl] obtain d e rest res le1 g g' where
    h: "resolution_list f = d @ e # rest"
       "resolve_elems d [] le (f\<lparr>resolution_list := []\<rparr>) = Inr (res, le1, g)"
       "elem_resolve e g = (Raised x, g')" "\<not> is_deferred x" by blast
  have "resolution_loop (Suc n) le f = Some (Inl (Propagated x))" using Inl ne by simp
  with h show ?thesis by blast
next
  case (Inr t)
  obtain res le' f' where t: "t = (res, le', f')" by (cases t)
  show ?thesis
  proof (cases "res = []")
    case True
    from resolve_elems_none_resolved[OF ne Inr[unfolded t True]]
    obtain x le1 g g' where h: "is_deferred x" "le' = Some x"
      "resolve_elems (butlast (resolution_list f)) [] le (f\<lparr>resolution_list := []\<rparr>)
         = Inr ([], le1, g)"
      "elem_resolve (last (resolution_list f)) g = (Raised x, g')" by blast
    have "resolution_loop (Suc n) le f = Some (Inl (Deadlock (Some x)))"
      using Inr t True ne h(2) by simp
    with h show ?thesis by blast
  next
    case False
    from resolve_elems_resolved_subset[OF Inr[unfolded t]]
    have "set res \<subseteq> set (resolution_list f)" by simp
    moreover have "resolution_loop (Suc n) le f = resolution_loop n le' f'"
      using Inr t False ne by simp
    ultimately show ?thesis using False Inr t by blast
  qed
qed

lemma second_phase_rest:
  assumes nf: "ElFamily \<notin> set (resolution_list f)"
    and pass: "resolve_elems (resolution_list f) [] le (f\<lparr>resolution_list := []\<rparr>)
                 = Inr (res, le', f')"
  shows "set (resolution_list f') \<subseteq> set (resolution_list f)"
proof -
  let ?Q = "resolution_list f"
  let ?g = "f\<lparr>resolution_list := []\<rparr>"
  have ft: "\<forall>e\<in>set ?Q. \<not> fatal (elem_outcome e f)"
  proof (rule ccontr)
    assume "\<not> ?thesis"
    then have "\<exists>e\<in>set ?Q. fatal (elem_outcome e ?g)"
      using nf elem_outcome_clear by metis
    from resolve_elems_fatal[OF nf this, of "[]" le] pass show False by simp
  qed
  from second_phase_pass[OF nf ft, of le] pass
  have "resolution_list f' = filter (\<lambda>e. stuck (elem_outcome e f)) ?Q" by auto
  then show ?thesis by simp
qed

lemma loop_state_rest:
  "ElFamily \<notin> set (resolution_list f) \<Longrightarrow> loop_state k le f = Some (le2, f2) \<Longrightarrow>
     set (resolution_list f2) \<subseteq> set (resolution_list f)"
proof (induction k arbitrary: le f)
  case 0
  then show ?case by simp
next
  case (Suc k)
  from Suc.prems(2) have ne: "resolution_list f \<noteq> []" by (auto split: if_splits)
  from Suc.prems(2) ne obtain res le1 f1 where
    p: "resolve_elems (resolution_list f) [] le (f\<lparr>resolution_list := []\<rparr>) = Inr (res, le1, f1)"
    and s: "loop_state k le1 f1 = Some (le2, f2)"
    by (auto split: sum.splits prod.splits if_splits)
  from second_phase_rest[OF Suc.prems(1) p]
  have sub: "set (resolution_list f1) \<subseteq> set (resolution_list f)" .
  with Suc.prems(1) have "ElFamily \<notin> set (resolution_list f1)" by auto
  from Suc.IH[OF this s] sub show ?case by simp
qed

lemma first_pass_elems:
  "parse_ok (operations spec) \<Longrightarrow>
     resolve_elems (resolution_list (init_family spec)) [] None
        ((init_family spec)\<lparr>resolution_list := []\<rparr>)
       = Inr ([ElFamily], None, family_resolved spec)"
  "\<not> parse_ok (operations spec) \<Longrightarrow>
     resolve_elems (resolution_list (init_family spec)) [] None
        ((init_family spec)\<lparr>resolution_list := []\<rparr>)
       = Inl (Exception ''Can't parse directional ops'')"
proof -
  let ?f0 = "(init_family spec)\<lparr>resolution_list := []\<rparr>"
  show "resolve_elems (resolution_list (init_family spec)) [] None ?f0
       = Inr ([ElFamily], None, family_resolved spec)" if "parse_ok (operations spec)"
    by (simp add: family_resolve_init[OF that])
  show "resolve_elems (resolution_list (init_family spec)) [] None ?f0
       = Inl (Exception ''Can't parse directional ops'')" if "\<not> parse_ok (operations spec)"
  proof -
    from SpecFamily_resolve_raise[of ?f0] that
    obtain g where "SpecFamily_resolve ?f0 = (Raised (Exception ''Can't parse directional ops''), g)"
      by (cases "SpecFamily_resolve ?f0") simp
    then show ?thesis by simp
  qed
qed

lemma loop_state_first:
  assumes "loop_state (Suc j) None (init_family spec) = Some (le, f)"
  shows "parse_ok (operations spec)"
    and "loop_state j None (family_resolved spec) = Some (le, f)"
proof -
  show ok: "parse_ok (operations spec)"
  proof (rule ccontr)
    assume "\<not> parse_ok (operations spec)"
    from first_pass_elems(2)[OF this] assms show False
      by (simp del: resolve_elems.simps)
  qed
  from first_pass_elems(1)[OF ok] assms
  show "loop_state j None (family_resolved spec) = Some (le, f)"
    by (simp del: resolve_elems.simps)
qed

lemma resolved_for_good:
  assumes s: "loop_state j None (init_family spec) = Some (le, f)"
    and pass: "resolve_elems (resolution_list f) [] le (f\<lparr>resolution_list := []\<rparr>)
                 = Inr (res, le', f')"
    and later: "loop_state k le' f' = Some (le2, f2)"
  shows "set res \<inter> set (resolution_list f2) = {}"
proof (cases j)
  case 0
  with s have f: "f = init_family spec" "le = None" by simp_all
  have ok: "parse_ok (operations spec)"
  proof (rule ccontr)
    assume "\<not> parse_ok (operations spec)"
    from first_pass_elems(2)[OF this] pass f show False by (simp del: resolve_elems.simps)
  qed
  from first_pass_elems(1)[OF ok] pass f
  have r: "res = [ElFamily]" "f' = family_resolved spec" by (simp_all del: resolve_elems.simps)
  from loop_state_rest[OF _ later] family_resolved_no_family[OF ok] r
  have "ElFamily \<notin> set (resolution_list f2)" by auto
  with r show ?thesis by simp
next
  case (Suc j')
  note ok = loop_state_first(1)[OF s[unfolded Suc]]
  note st = loop_state_first(2)[OF s[unfolded Suc]]
  from loop_state_rest[OF family_resolved_no_family[OF ok] st] family_resolved_no_family[OF ok]
  have nf: "ElFamily \<notin> set (resolution_list f)" by auto
  from second_phase_progress[OF nf pass]
  have d: "set res \<inter> set (resolution_list f') = {}" by simp
  from second_phase_rest[OF nf pass]
  have sub: "set (resolution_list f') \<subseteq> set (resolution_list f)" .
  with nf have "ElFamily \<notin> set (resolution_list f')" by auto
  from loop_state_rest[OF this later] d show ?thesis by auto
qed

section \<open>The claims\<close>

text \<open>
  C1, amended. The resolution engine terminates on every document. With as many passes as
  the document has elements, and with any larger number, the load returns, either a family
  or a failure. A family is returned only with an empty resolution list, and an empty list
  is a success in any state. In any state with a non-empty list one pass ends in one of
  three ways. The resolution of an element of the list raises an exception that the loop
  does not catch, and the load ends at once with that exception. Or the pass resolves
  nothing, and the load ends with the deadlock failure, which carries the deferred exception
  raised by the last element of the list, the last one observed. Or the pass resolves at
  least one element of the list, and the loop goes on with one pass less. A load that ends
  with the deadlock failure has come, by passes that each resolved an element, to a state
  whose pass resolves nothing, and it carries the deferred exception of the last element of
  that pass. Where the list does not hold the family, the elements that a pass resolves are
  not in the list it leaves, which is shorter by their number and holds no new element. The
  first pass resolves the family (unless the directional policy rejects an entry), and the
  family is not registered again. An element that a pass of the load resolves is in the
  list of no later pass. The counterexample is a first pass that resolves nothing and ends
  the load with an exception that is not deferred, where no deferred one has been observed.
\<close>

theorem resolution_terminates:
  "(\<exists>r. \<forall>k. SpecFamily_init (num_elements spec + k) spec = Some r)
   \<and> (\<forall>n f. SpecFamily_init n spec = Some (Inr f) \<longrightarrow> resolution_list f = [])
   \<and> (\<forall>n le f. resolution_list f = [] \<longrightarrow> resolution_loop n le f = Some (Inr f))
   \<and> (\<forall>k n le f le' f'. loop_state k le f = Some (le', f')
         \<longrightarrow> resolution_loop (k + n) le f = resolution_loop n le' f')
   \<and> (\<forall>n l. SpecFamily_init n spec = Some (Inl (Deadlock l))
         \<longrightarrow> (\<exists>x k le f le1 g g'. l = Some x \<and> is_deferred x
                \<and> loop_state k None (init_family spec) = Some (le, f)
                \<and> resolution_list f \<noteq> []
                \<and> resolve_elems (butlast (resolution_list f)) [] le
                     (f\<lparr>resolution_list := []\<rparr>) = Inr ([], le1, g)
                \<and> elem_resolve (last (resolution_list f)) g = (Raised x, g')))
   \<and> (\<forall>n le f. resolution_list f \<noteq> [] \<longrightarrow>
         (\<exists>x pre e rest res le1 g g'. \<not> is_deferred x
             \<and> resolution_loop (Suc n) le f = Some (Inl (Propagated x))
             \<and> resolution_list f = pre @ e # rest
             \<and> resolve_elems pre [] le (f\<lparr>resolution_list := []\<rparr>) = Inr (res, le1, g)
             \<and> elem_resolve e g = (Raised x, g'))
       \<or> (\<exists>x le1 g g'. is_deferred x
             \<and> resolution_loop (Suc n) le f = Some (Inl (Deadlock (Some x)))
             \<and> resolve_elems (butlast (resolution_list f)) [] le (f\<lparr>resolution_list := []\<rparr>)
                 = Inr ([], le1, g)
             \<and> elem_resolve (last (resolution_list f)) g = (Raised x, g'))
       \<or> (\<exists>res le' f'. res \<noteq> [] \<and> set res \<subseteq> set (resolution_list f)
             \<and> resolve_elems (resolution_list f) [] le (f\<lparr>resolution_list := []\<rparr>)
                 = Inr (res, le', f')
             \<and> resolution_loop (Suc n) le f = resolution_loop n le' f'))
   \<and> (\<forall>le f res le' f'. ElFamily \<notin> set (resolution_list f)
           \<and> resolve_elems (resolution_list f) [] le (f\<lparr>resolution_list := []\<rparr>)
               = Inr (res, le', f')
         \<longrightarrow> set res \<inter> set (resolution_list f') = {}
             \<and> length res + length (resolution_list f') = length (resolution_list f)
             \<and> set (resolution_list f') \<subseteq> set (resolution_list f))
   \<and> (parse_ok (operations spec) \<longrightarrow>
         ElFamily \<notin> set (resolution_list (family_resolved spec))
         \<and> (\<forall>n. SpecFamily_init (Suc n) spec = resolution_loop n None (family_resolved spec)))
   \<and> (\<forall>j k le f res le' f' le2 f2.
         loop_state j None (init_family spec) = Some (le, f)
         \<and> resolve_elems (resolution_list f) [] le (f\<lparr>resolution_list := []\<rparr>)
             = Inr (res, le', f')
         \<and> loop_state k le' f' = Some (le2, f2)
         \<longrightarrow> set res \<inter> set (resolution_list f2) = {})"
proof -
  have fin: "\<exists>r. \<forall>k. SpecFamily_init (num_elements spec + k) spec = Some r"
  proof (cases "parse_ok (operations spec)")
    case True
    let ?F = "family_resolved spec"
    from second_phase_terminates[OF family_resolved_no_family[OF True], of None]
    obtain r where r: "resolution_loop (length (resolution_list ?F)) None ?F = Some r" by blast
    have "SpecFamily_init (num_elements spec + k) spec = Some r" for k
      using resolution_loop_mono[OF r, of k]
      by (simp add: SpecFamily_init_def num_elements_def first_pass_ok[OF True]
            del: resolution_loop.simps)
    then show ?thesis by blast
  next
    case False
    show ?thesis
      by (simp add: SpecFamily_init_def num_elements_def first_pass_raise[OF False]
            del: resolution_loop.simps)
  qed
  have emp: "resolution_list f = []" if "SpecFamily_init n spec = Some (Inr f)" for n f
    using that unfolding SpecFamily_init_def by (rule resolution_loop_success)
  have prog: "set res \<inter> set (resolution_list f') = {}
             \<and> length res + length (resolution_list f') = length (resolution_list f)
             \<and> set (resolution_list f') \<subseteq> set (resolution_list f)"
    if "ElFamily \<notin> set (resolution_list f)
           \<and> resolve_elems (resolution_list f) [] le (f\<lparr>resolution_list := []\<rparr>)
               = Inr (res, le', f')" for le f res le' f'
    using second_phase_progress[OF that[THEN conjunct1] that[THEN conjunct2]]
      second_phase_rest[OF that[THEN conjunct1] that[THEN conjunct2]] by simp
  have first: "ElFamily \<notin> set (resolution_list (family_resolved spec))
         \<and> (\<forall>n. SpecFamily_init (Suc n) spec = resolution_loop n None (family_resolved spec))"
    if ok: "parse_ok (operations spec)"
    using family_resolved_no_family[OF ok] SpecFamily_init_Suc_ok[OF ok] by blast
  have perm: "set res \<inter> set (resolution_list f2) = {}"
    if "loop_state j None (init_family spec) = Some (le, f)
         \<and> resolve_elems (resolution_list f) [] le (f\<lparr>resolution_list := []\<rparr>)
             = Inr (res, le', f')
         \<and> loop_state k le' f' = Some (le2, f2)" for j k le f res le' f' le2 f2
    by (rule resolved_for_good[OF that[THEN conjunct1] that[THEN conjunct2, THEN conjunct1]
          that[THEN conjunct2, THEN conjunct2]])
  show ?thesis
  proof (intro conjI)
    show "\<exists>r. \<forall>k. SpecFamily_init (num_elements spec + k) spec = Some r" by (rule fin)
    show "\<forall>n f. SpecFamily_init n spec = Some (Inr f) \<longrightarrow> resolution_list f = []"
      using emp by blast
    show "\<forall>n le f. resolution_list f = [] \<longrightarrow> resolution_loop n le f = Some (Inr f)"
      by (intro allI impI) (rule resolution_loop_empty)
    show "\<forall>k n le f le' f'. loop_state k le f = Some (le', f')
         \<longrightarrow> resolution_loop (k + n) le f = resolution_loop n le' f'"
      by (intro allI impI) (rule loop_state_loop)
    show "\<forall>n l. SpecFamily_init n spec = Some (Inl (Deadlock l))
         \<longrightarrow> (\<exists>x k le f le1 g g'. l = Some x \<and> is_deferred x
                \<and> loop_state k None (init_family spec) = Some (le, f)
                \<and> resolution_list f \<noteq> []
                \<and> resolve_elems (butlast (resolution_list f)) [] le
                     (f\<lparr>resolution_list := []\<rparr>) = Inr ([], le1, g)
                \<and> elem_resolve (last (resolution_list f)) g = (Raised x, g'))"
      unfolding SpecFamily_init_def by (intro allI impI) (rule resolution_loop_deadlock_last)
    show "\<forall>n le f. resolution_list f \<noteq> [] \<longrightarrow>
         (\<exists>x pre e rest res le1 g g'. \<not> is_deferred x
             \<and> resolution_loop (Suc n) le f = Some (Inl (Propagated x))
             \<and> resolution_list f = pre @ e # rest
             \<and> resolve_elems pre [] le (f\<lparr>resolution_list := []\<rparr>) = Inr (res, le1, g)
             \<and> elem_resolve e g = (Raised x, g'))
       \<or> (\<exists>x le1 g g'. is_deferred x
             \<and> resolution_loop (Suc n) le f = Some (Inl (Deadlock (Some x)))
             \<and> resolve_elems (butlast (resolution_list f)) [] le (f\<lparr>resolution_list := []\<rparr>)
                 = Inr ([], le1, g)
             \<and> elem_resolve (last (resolution_list f)) g = (Raised x, g'))
       \<or> (\<exists>res le' f'. res \<noteq> [] \<and> set res \<subseteq> set (resolution_list f)
             \<and> resolve_elems (resolution_list f) [] le (f\<lparr>resolution_list := []\<rparr>)
                 = Inr (res, le', f')
             \<and> resolution_loop (Suc n) le f = resolution_loop n le' f')"
      by (intro allI impI) (rule resolution_loop_pass_outcome)
    show "\<forall>le f res le' f'. ElFamily \<notin> set (resolution_list f)
           \<and> resolve_elems (resolution_list f) [] le (f\<lparr>resolution_list := []\<rparr>)
               = Inr (res, le', f')
         \<longrightarrow> set res \<inter> set (resolution_list f') = {}
             \<and> length res + length (resolution_list f') = length (resolution_list f)
             \<and> set (resolution_list f') \<subseteq> set (resolution_list f)"
      by (intro allI impI) (rule prog)
    show "parse_ok (operations spec) \<longrightarrow>
         ElFamily \<notin> set (resolution_list (family_resolved spec))
         \<and> (\<forall>n. SpecFamily_init (Suc n) spec = resolution_loop n None (family_resolved spec))"
      by (intro impI) (rule first)
    show "\<forall>j k le f res le' f' le2 f2.
         loop_state j None (init_family spec) = Some (le, f)
         \<and> resolve_elems (resolution_list f) [] le (f\<lparr>resolution_list := []\<rparr>)
             = Inr (res, le', f')
         \<and> loop_state k le' f' = Some (le2, f2)
         \<longrightarrow> set res \<inter> set (resolution_list f2) = {}"
      by (intro allI impI) (rule perm)
  qed
qed

theorem resolution_terminates_witness:
  "SpecFamily_init (num_elements example_missing_target) example_missing_target
     = Some (Inl (Deadlock (Some (KeyError ''Z''))))
   \<and> is_deferred (KeyError ''Z'')
   \<and> (\<exists>f. SpecFamily_init (num_elements example_unified) example_unified = Some (Inr f)
          \<and> resolution_list f = [])"
proof -
  have d: "SpecFamily_init (num_elements example_missing_target) example_missing_target
     = Some (Inl (Deadlock (Some (KeyError ''Z''))))"
    by code_simp
  have "case SpecFamily_init (num_elements example_unified) example_unified of
          Some (Inr f) \<Rightarrow> True | _ \<Rightarrow> False"
    by code_simp
  then obtain f where f: "SpecFamily_init (num_elements example_unified) example_unified
      = Some (Inr f)"
    by (auto split: option.splits sum.splits)
  have g: "\<exists>x. l = Some x \<and> is_deferred x"
    if "SpecFamily_init n sp = Some (Inl (Deadlock l))" for n sp l
    using resolution_terminates[of sp, THEN conjunct2, THEN conjunct2, THEN conjunct2,
          THEN conjunct2, THEN conjunct1, rule_format, OF that] by blast
  from g[OF d] have k: "is_deferred (KeyError ''Z'')" by simp
  have e: "resolution_list f = []"
    by (rule resolution_terminates[of example_unified, THEN conjunct2, THEN conjunct1,
          rule_format, OF f])
  have "\<exists>f. SpecFamily_init (num_elements example_unified) example_unified = Some (Inr f)
          \<and> resolution_list f = []"
    by (rule exI[of _ f], rule conjI, rule f, rule e)
  with d k show ?thesis by (intro conjI)
qed

theorem resolution_terminates_counterexample:
  "resolution_list (init_family example_unclassifiable) = [ElFamily]
   \<and> resolve_elems [ElFamily] [] None ((init_family example_unclassifiable)\<lparr>resolution_list := []\<rparr>)
       = Inl (Exception ''Can't parse directional ops'')
   \<and> SpecFamily_init 1 example_unclassifiable
       = Some (Inl (Propagated (Exception ''Can't parse directional ops'')))
   \<and> \<not> is_deferred (Exception ''Can't parse directional ops'')"
  by code_simp

text \<open>
  C2, amended. Under the directional policy the list of a call \<open>A\<close> with \<open>do\<close> and no
  reply, a call \<open>B\<close> with \<open>do\<close> and a reply, and a notification \<open>C\<close> of \<open>B\<close>, with
  no explicit values, gives \<open>A\<close> the request value 0 and the response value 0 (the
  response counter, which \<open>A\<close> leaves unchanged), \<open>B\<close> the request value 1 and the
  response value 0, and \<open>C\<close> no request value and the response value 1. The
  counterexample shows the response value of \<open>A\<close> in a loaded family: it is 0, not absent.
\<close>

theorem directional_example:
  assumes m: "enum_model (operations spec) = Some ''directional''"
    and l: "ops_list (operations spec) = [A, B, C]"
    and A: "oy_notify A = None" "oy_do A = Some mA" "reply mA = None"
      "get_value (request mA) = None"
    and B: "oy_notify B = None" "oy_do B = Some mB" "reply mB = Some rB" "my_value rB = None"
      "get_value (request mB) = None"
    and C: "oy_notify C = Some (oy_name B)" "oy_value C = None"
  shows "SpecFamily_resolve ((init_family spec)\<lparr>resolution_list := []\<rparr>)
           = (Normal, family_resolved spec)
       \<and> map (\<lambda>op. (op_yaml op, req_value op, rsp_value op)) (op_objs (family_resolved spec))
           = [(A, Some 0, Some 0), (B, Some 1, Some 0), (C, None, Some 1)]
       \<and> (\<forall>n f. SpecFamily_init n spec = Some (Inr f) \<longrightarrow>
             map (\<lambda>op. (op_yaml op, req_value op, rsp_value op)) (op_objs f)
               = [(A, Some 0, Some 0), (B, Some 1, Some 0), (C, None, Some 1)])"
proof -
  let ?h = "\<lambda>op. (op_yaml op, req_value op, rsp_value op)"
  have cl: "list_all classifiable [A, B, C]"
    using A(2) B(2) C(1) by (simp add: classifiable_def call_mode_def)
  then have ok: "parse_ok (operations spec)" by (simp add: parse_ok_def l)
  have reg: "registered_ops (operations spec) = [A, B, C]"
    by (simp add: registered_ops_def m l)
  have vals: "id_values (operations spec) = [(Some 0, Some 0), (Some 1, Some 0), (None, Some 1)]"
    using A B C by (simp add: id_values_def m l call_mode_def get_value_def truthy_def)
  have ids: "map ?h (op_objs (family_resolved spec))
      = [(A, Some 0, Some 0), (B, Some 1, Some 0), (C, None, Some 1)]"
    by (simp add: family_resolved_objs[OF ok] reg vals SpecOperation_init_def Let_def)
  have "map ?h (op_objs f) = map ?h (op_objs (family_resolved spec))"
    if "SpecFamily_init n spec = Some (Inr f)" for n f
    by (rule load_success_objs[OF that]) simp
  with ids family_resolve_init[OF ok] show ?thesis by simp
qed

theorem directional_example_witness:
  "\<exists>f. SpecFamily_init 2 example_directional = Some (Inr f)
      \<and> map (\<lambda>op. (oy_name (op_yaml op), req_value op, rsp_value op)) (op_objs f)
          = [(''A'', Some 0, Some 0), (''B'', Some 1, Some 0), (''C'', None, Some 1)]"
proof -
  let ?A = "(op_entry ''A'')\<lparr>oy_attribute_set := Some ''s'', oy_do := Some no_reply\<rparr>"
  let ?B = "(op_entry ''B'')\<lparr>oy_attribute_set := Some ''s'', oy_do := Some with_reply\<rparr>"
  let ?C = "(op_entry ''C'')\<lparr>oy_notify := Some ''B''\<rparr>"
  have "case SpecFamily_init 2 example_directional of Some (Inr f) \<Rightarrow> True | _ \<Rightarrow> False"
    by code_simp
  then obtain f where f: "SpecFamily_init 2 example_directional = Some (Inr f)"
    by (auto split: option.splits sum.splits)
  have "map (\<lambda>op. (op_yaml op, req_value op, rsp_value op)) (op_objs f)
          = [(?A, Some 0, Some 0), (?B, Some 1, Some 0), (?C, None, Some 1)]"
    using directional_example[of example_directional ?A ?B ?C no_reply with_reply
        "\<lparr>my_value = None\<rparr>"] f
    by (simp add: example_directional_def spec_of_def op_entry_def no_reply_def with_reply_def
          get_value_def)
  then have "map (\<lambda>(y, r, s). (oy_name y, r, s))
               (map (\<lambda>op. (op_yaml op, req_value op, rsp_value op)) (op_objs f))
          = map (\<lambda>(y, r, s). (oy_name y, r, s))
              [(?A, Some 0, Some 0), (?B, Some 1, Some 0), (?C, None, Some 1)]"
    by (rule arg_cong)
  then have r: "map (\<lambda>op. (oy_name (op_yaml op), req_value op, rsp_value op)) (op_objs f)
          = [(''A'', Some 0, Some 0), (''B'', Some 1, Some 0), (''C'', None, Some 1)]"
    by (simp add: comp_def op_entry_def)
  show ?thesis by (rule exI[of _ f], rule conjI, rule f, rule r)
qed

theorem directional_example_counterexample:
  "case SpecFamily_init 2 example_directional of
     Some (Inr f) \<Rightarrow> op_name (op_objs f ! 0) = ''A'' \<and> rsp_value (op_objs f ! 0) = Some 0
       \<and> rsp_value (op_objs f ! 0) \<noteq> None
   | _ \<Rightarrow> False"
  by code_simp




text \<open>
  C4. Under the directional policy an explicit request value of 0 does not replace the
  request counter: after a first call, the second call, which declares the request value 0,
  receives the request value 1.
\<close>

theorem directional_zero_request:
  "case SpecFamily_init 2 example_zero_request of
     Some (Inr f) \<Rightarrow>
       oy_do (op_yaml (op_objs f ! 1))
         = Some \<lparr>request = Some \<lparr>my_value = Some 0\<rparr>, reply = None\<rparr>
       \<and> req_value (op_objs f ! 1) = Some 1
   | _ \<Rightarrow> False"
  by code_simp

text \<open>
  C5. The constructor of an attribute set registers one attribute for each entry, in the
  order of the declaration, with the values of the running counter that starts at 0, and
  enters each of them in both dictionaries; when no entry declares a value, the values
  are \<open>0, \<dots>, k - 1\<close> and the dictionary by value lists them in that order.
\<close>

theorem attr_values_counter:
  assumes "new_attr_set elem f = (s, f')"
  shows "\<exists>as. resolution_list f' = resolution_list f @ ElAttrSet elem # map ElAttr as
           \<and> map attr_yaml as = sy_attributes elem
           \<and> map attr_value as = counter_values 0 (map ay_value (sy_attributes elem))
           \<and> attrs s = fold (\<lambda>a. AList.update (attr_name a) a) as []
           \<and> attrs_by_val s = fold (\<lambda>a. AList.update (attr_value a) a) as []
           \<and> ((\<forall>e\<in>set (sy_attributes elem). ay_value e = None) \<longrightarrow>
                map attr_value as = map int [0..<length (sy_attributes elem)]
                \<and> attrs_by_val s = zip (map int [0..<length (sy_attributes elem)]) as)"
proof -
  let ?es = "sy_attributes elem"
  let ?as = "built_attrs 0 ?es"
  from assms have s: "s = built_set elem"
    and f': "f' = f\<lparr>resolution_list := resolution_list f @ set_elems elem\<rparr>"
    by (simp_all add: new_attr_set_eq)
  have auto_vals: "map attr_value ?as = map int [0..<length ?es]
      \<and> attrs_by_val s = zip (map int [0..<length ?es]) ?as"
    if none: "\<forall>e\<in>set ?es. ay_value e = None"
  proof -
    from none have "\<forall>x\<in>set (map ay_value ?es). x = None" by simp
    from counter_values_none[OF this, of 0]
    have vals: "map attr_value ?as = map int [0..<length ?es]" by simp
    have "distinct (map attr_value ?as)"
      unfolding vals by (simp add: distinct_map inj_on_def)
    then have "distinct (map fst ([] :: (int \<times> SpecAttr) list) @ map attr_value ?as)" by simp
    from fold_update_fresh[OF this]
    have "attrs_by_val s = map (\<lambda>a. (attr_value a, a)) ?as"
      by (simp add: s built_set_def)
    also have "\<dots> = zip (map attr_value ?as) ?as"
      by (rule map_key_zip)
    finally show ?thesis using vals by simp
  qed
  have "resolution_list f' = resolution_list f @ ElAttrSet elem # map ElAttr ?as"
    by (simp add: f' set_elems_def)
  moreover have "map attr_yaml ?as = ?es" by simp
  moreover have "map attr_value ?as = counter_values 0 (map ay_value ?es)" by simp
  moreover have "attrs s = fold (\<lambda>a. AList.update (attr_name a) a) ?as []"
    by (simp add: s built_set_def)
  moreover have "attrs_by_val s = fold (\<lambda>a. AList.update (attr_value a) a) ?as []"
    by (simp add: s built_set_def)
  ultimately show ?thesis using auto_vals by blast
qed

theorem attr_values_counter_witness:
  "map ay_value (sy_attributes example_set) = [None, None, None]
   \<and> (\<exists>as. resolution_list (snd (new_attr_set example_set (init_family example_unified)))
             = [ElFamily, ElAttrSet example_set] @ map ElAttr as
           \<and> map attr_value as = [0, 1, 2])"
proof -
  have v: "map ay_value (sy_attributes example_set) = [None, None, None]"
    by (simp add: example_set_def attr_entry_def)
  have n: "\<forall>e\<in>set (sy_attributes example_set). ay_value e = None"
    by (simp add: example_set_def attr_entry_def)
  have u: "[0..<length (sy_attributes example_set)] = [0, 1, 2]"
    by (simp add: example_set_def upt_rec)
  from attr_values_counter[OF surjective_pairing, of example_set "init_family example_unified"] n u
  have "\<exists>as. resolution_list (snd (new_attr_set example_set (init_family example_unified)))
             = [ElFamily, ElAttrSet example_set] @ map ElAttr as
           \<and> map attr_value as = [0, 1, 2]"
    by auto
  with v show ?thesis by (rule conjI)
qed

text \<open>
  C6. Under the unified policy (selected or by default), when no entry declares a value,
  the operation at position \<open>i\<close> is that of the entry at position \<open>i\<close> and has
  \<open>req_value\<close>, \<open>rsp_value\<close> and \<open>value\<close> equal to \<open>i\<close>, after the resolution step
  of the family and in every loaded family.
\<close>

theorem unified_ids:
  assumes m: "enum_model (operations spec) = None \<or> enum_model (operations spec) = Some ''unified''"
    and nv: "\<forall>e\<in>set (ops_list (operations spec)). oy_value e = None"
  shows "SpecFamily_resolve ((init_family spec)\<lparr>resolution_list := []\<rparr>)
           = (Normal, family_resolved spec)
       \<and> map (\<lambda>op. (op_yaml op, req_value op, rsp_value op, op_value op))
             (op_objs (family_resolved spec))
           = map (\<lambda>i. (ops_list (operations spec) ! i, Some (int i), Some (int i), Some (int i)))
               [0..<length (ops_list (operations spec))]
       \<and> (\<forall>n f. SpecFamily_init n spec = Some (Inr f) \<longrightarrow>
             map (\<lambda>op. (op_yaml op, req_value op, rsp_value op, op_value op)) (op_objs f)
               = map (\<lambda>i. (ops_list (operations spec) ! i, Some (int i), Some (int i), Some (int i)))
                   [0..<length (ops_list (operations spec))])"
proof -
  let ?es = "ops_list (operations spec)"
  let ?h = "\<lambda>op. (op_yaml op, req_value op, rsp_value op, op_value op)"
  have ok: "parse_ok (operations spec)" by (rule unified_parse_ok[OF m])
  have objs: "op_objs (family_resolved spec)
      = map2 (\<lambda>e (r, s). SpecOperation_init e r s) ?es
          (map (\<lambda>i. (Some (int i), Some (int i))) [0..<length ?es])"
    by (simp add: family_resolved_objs[OF ok] unified_registered[OF m] unified_id_values[OF m nv])
  have ids: "map ?h (op_objs (family_resolved spec))
      = map (\<lambda>i. (?es ! i, Some (int i), Some (int i), Some (int i))) [0..<length ?es]"
    unfolding objs
    by (rule nth_equalityI) (simp_all add: SpecOperation_init_def Let_def)
  have "map ?h (op_objs f) = map ?h (op_objs (family_resolved spec))"
    if "SpecFamily_init n spec = Some (Inr f)" for n f
    by (rule load_success_objs[OF that]) simp
  with ids family_resolve_init[OF ok] show ?thesis by simp
qed

theorem unified_ids_witness:
  "map oy_value (ops_list (operations example_unified)) = [None, None, None]
   \<and> (\<exists>f. SpecFamily_init 2 example_unified = Some (Inr f)
          \<and> map (\<lambda>op. (op_yaml op, req_value op, rsp_value op, op_value op)) (op_objs f)
              = map (\<lambda>i. (ops_list (operations example_unified) ! i,
                           Some (int i), Some (int i), Some (int i))) [0, 1, 2])"
proof -
  have m: "enum_model (operations example_unified) = None
      \<or> enum_model (operations example_unified) = Some ''unified''"
    by (simp add: example_unified_def spec_of_def)
  have v: "map oy_value (ops_list (operations example_unified)) = [None, None, None]"
    by (simp add: example_unified_def spec_of_def op_entry_def)
  have nv: "\<forall>e\<in>set (ops_list (operations example_unified)). oy_value e = None"
    by (simp add: example_unified_def spec_of_def op_entry_def)
  have "case SpecFamily_init 2 example_unified of Some (Inr f) \<Rightarrow> True | _ \<Rightarrow> False"
    by code_simp
  then obtain f where f: "SpecFamily_init 2 example_unified = Some (Inr f)"
    by (auto split: option.splits sum.splits)
  have u: "[0..<length (ops_list (operations example_unified))] = [0, 1, 2]"
    by (simp add: example_unified_def spec_of_def upt_rec)
  from unified_ids[OF m nv] f u
  have "\<exists>f. SpecFamily_init 2 example_unified = Some (Inr f)
          \<and> map (\<lambda>op. (op_yaml op, req_value op, rsp_value op, op_value op)) (op_objs f)
              = map (\<lambda>i. (ops_list (operations example_unified) ! i,
                           Some (int i), Some (int i), Some (int i))) [0, 1, 2]"
    by auto
  with v show ?thesis by (rule conjI)
qed

text \<open>
  C7, amended. For every constructed operation \<open>is_call\<close> holds exactly when the entry
  has \<open>do\<close> or \<open>dump\<close>, \<open>is_async\<close> exactly when it has \<open>notify\<close> or \<open>event\<close>, and
  \<open>is_resv\<close> exactly when neither holds; so at least one flag holds, and exactly one
  holds unless the entry is both a call and a notification. The counterexample is an entry
  with \<open>do\<close> and \<open>event\<close>: both \<open>is_call\<close> and \<open>is_async\<close> hold.
\<close>

theorem operation_flags:
  "new_operation elem req rsp f = (a, f') \<Longrightarrow>
     is_call (op_objs f' ! a) = (oy_do elem \<noteq> None \<or> oy_dump elem \<noteq> None)
     \<and> is_async (op_objs f' ! a) = (oy_notify elem \<noteq> None \<or> oy_event elem \<noteq> None)
     \<and> is_resv (op_objs f' ! a) = (\<not> is_async (op_objs f' ! a) \<and> \<not> is_call (op_objs f' ! a))
     \<and> (is_call (op_objs f' ! a) \<or> is_async (op_objs f' ! a) \<or> is_resv (op_objs f' ! a))
     \<and> exactly_one (is_call (op_objs f' ! a)) (is_async (op_objs f' ! a)) (is_resv (op_objs f' ! a))
         = (\<not> (is_call (op_objs f' ! a) \<and> is_async (op_objs f' ! a)))"
  by (auto simp: new_operation_eq SpecOperation_init_def Let_def exactly_one_def)

theorem operation_flags_witness:
  "is_call (op_objs (snd (new_operation (op_entry ''R'') (Some 0) (Some 0) (init_family example_unified))) ! 0) = False
   \<and> is_resv (op_objs (snd (new_operation (op_entry ''R'') (Some 0) (Some 0) (init_family example_unified))) ! 0)"
  using operation_flags[of "op_entry ''R''" "Some 0" "Some 0" "init_family example_unified" 0
      "snd (new_operation (op_entry ''R'') (Some 0) (Some 0) (init_family example_unified))"]
  by (simp add: new_operation_eq op_entry_def)

theorem operation_flags_counterexample:
  "case SpecFamily_init 2 example_call_event of
     Some (Inr f) \<Rightarrow>
       is_call (op_objs f ! 0) \<and> is_async (op_objs f ! 0)
       \<and> \<not> exactly_one (is_call (op_objs f ! 0)) (is_async (op_objs f ! 0))
             (is_resv (op_objs f ! 0))
   | _ \<Rightarrow> False"
  by code_simp

text \<open>
  C8, amended. In a loaded family the name of every reserved operation is a key of
  \<open>msgs\<close>, and \<open>msgs\<close> holds the operation itself under its name exactly when no
  later operation has the same name. A reserved operation that declares no attribute set
  is not in \<open>ops\<close>. One that declares an attribute set is in \<open>ops\<close> under its name
  exactly when \<open>msgs\<close> holds it under its name. The counterexample is a reserved
  operation that \<open>ops\<close> holds.
\<close>

theorem reserved_in_catalogs:
  assumes load: "SpecFamily_init n spec = Some (Inr f)"
    and b: "b < length (op_objs f)" and r: "is_resv (op_objs f ! b)"
  shows "op_name (op_objs f ! b) \<in> fst ` set (msgs f)
       \<and> (map_of (msgs f) (op_name (op_objs f ! b)) = Some b
            \<longleftrightarrow> (\<forall>c. b < c \<and> c < length (op_objs f)
                     \<longrightarrow> op_name (op_objs f ! c) \<noteq> op_name (op_objs f ! b)))
       \<and> (oy_attribute_set (op_yaml (op_objs f ! b)) = None \<longrightarrow> b \<notin> snd ` set (ops f))
       \<and> (oy_attribute_set (op_yaml (op_objs f ! b)) \<noteq> None \<longrightarrow>
            (map_of (ops f) (op_name (op_objs f ! b)) = Some b
               \<longleftrightarrow> map_of (msgs f) (op_name (op_objs f ! b)) = Some b))"
proof -
  let ?F = "family_resolved spec"
  let ?es = "registered_ops (operations spec)"
  let ?cond = "\<lambda>a. \<not> is_async (op_objs ?F ! a) \<and> oy_attribute_set (op_yaml (op_objs ?F ! a)) \<noteq> None"
  let ?nm = "op_name (op_objs f ! b)"
  note ok = load_success(1)[OF load]
  note fr = load_success(2)[OF load]
  note fields = same_frame_fields[OF fr]
  have len: "length (op_objs f) = length ?es" by (rule loaded_ops(1)[OF load])
  from b len have b': "b < length ?es" by simp
  have nameF: "op_name (op_objs ?F ! a) = op_name (op_objs f ! a)" for a
    by (rule same_frame_op_fields(2)[OF fr])
  have yamlF: "op_yaml (op_objs ?F ! a) = op_yaml (op_objs f ! a)" for a
    by (rule same_frame_op_fields(1)[OF fr])
  have asyncF: "is_async (op_objs ?F ! a) = is_async (op_objs f ! a)" for a
    by (rule same_frame_op_fields(4)[OF fr])
  have name: "op_name (op_objs f ! c) = oy_name (?es ! c)" if "c < length ?es" for c
    using arg_cong[OF loaded_ops(2)[OF load], of "\<lambda>l. l ! c"] that len by simp
  have msgs_eq: "msgs f = msgs ?F" by (simp add: fields(1))
  have ops_eq: "ops f = ops ?F" by (simp add: fields(3))
  have present: "?nm \<in> fst ` set (msgs f)"
    using b' by (simp add: msgs_eq family_resolved_msgs_keys[OF ok] name)
  have held: "map_of (msgs f) ?nm = Some b
            \<longleftrightarrow> (\<forall>c. b < c \<and> c < length (op_objs f) \<longrightarrow> op_name (op_objs f ! c) \<noteq> ?nm)"
  proof -
    have "map_of (msgs f) ?nm = Some b
       \<longleftrightarrow> (\<forall>c. b < c \<and> c < length ?es \<longrightarrow> oy_name (?es ! c) \<noteq> oy_name (?es ! b))"
      unfolding msgs_eq name[OF b'] family_resolved_msgs_lookup[OF ok] using b' by simp
    also have "\<dots> \<longleftrightarrow> (\<forall>c. b < c \<and> c < length (op_objs f)
                      \<longrightarrow> op_name (op_objs f ! c) \<noteq> ?nm)"
      using name b' len by auto
    finally show ?thesis .
  qed
  have absent: "b \<notin> snd ` set (ops f)" if none: "oy_attribute_set (op_yaml (op_objs f ! b)) = None"
  proof
    assume "b \<in> snd ` set (ops f)"
    then obtain k where "(k, b) \<in> set (ops ?F)" by (auto simp: ops_eq)
    from catalog_ops_mem[OF this[unfolded family_resolved_ops(1)[OF ok]]]
    have "oy_attribute_set (op_yaml (op_objs ?F ! b)) \<noteq> None" by simp
    with none yamlF show False by simp
  qed
  have listed: "map_of (ops f) ?nm = Some b \<longleftrightarrow> map_of (msgs f) ?nm = Some b"
    if s: "oy_attribute_set (op_yaml (op_objs f ! b)) \<noteq> None"
  proof
    assume "map_of (ops f) ?nm = Some b"
    then have "(?nm, b) \<in> set (ops ?F)" unfolding ops_eq by (rule map_of_SomeD)
    from catalog_ops_mem[OF this[unfolded family_resolved_ops(1)[OF ok]]]
    have "b \<in> snd ` set (msgs ?F)" by simp
    then obtain k where k: "(k, b) \<in> set (msgs ?F)" by auto
    from family_resolved_msgs_mem[OF ok k] have "k = ?nm" by (simp add: name[OF b'])
    with k have "(?nm, b) \<in> set (msgs ?F)" by simp
    from map_of_is_SomeI[OF family_resolved_msgs_keys_distinct[OF ok] this]
    show "map_of (msgs f) ?nm = Some b" by (simp add: msgs_eq)
  next
    assume "map_of (msgs f) ?nm = Some b"
    then have "(?nm, b) \<in> set (msgs ?F)" unfolding msgs_eq by (rule map_of_SomeD)
    then have v: "b \<in> set (map snd (msgs ?F))" by force
    from r loaded_ops(5)[OF load b] have "\<not> is_async (op_objs f ! b)" by simp
    with s have "?cond b" by (simp add: asyncF yamlF)
    with v have "(op_name (op_objs ?F ! b), b) \<in> set (ops ?F)"
      unfolding family_resolved_ops_closed[OF ok] by (simp add: image_iff)
    from map_of_is_SomeI[OF family_resolved_ops_keys_distinct[OF ok] this]
    show "map_of (ops f) ?nm = Some b" by (simp add: ops_eq nameF)
  qed
  show ?thesis
  proof (intro conjI impI)
    show "?nm \<in> fst ` set (msgs f)" by (rule present)
    show "map_of (msgs f) ?nm = Some b
            \<longleftrightarrow> (\<forall>c. b < c \<and> c < length (op_objs f) \<longrightarrow> op_name (op_objs f ! c) \<noteq> ?nm)"
      by (rule held)
    show "b \<notin> snd ` set (ops f)" if "oy_attribute_set (op_yaml (op_objs f ! b)) = None"
      by (rule absent[OF that])
    show "map_of (ops f) ?nm = Some b \<longleftrightarrow> map_of (msgs f) ?nm = Some b"
      if "oy_attribute_set (op_yaml (op_objs f ! b)) \<noteq> None"
      by (rule listed[OF that])
  qed
qed

theorem reserved_in_catalogs_witness:
  "(\<exists>f. SpecFamily_init 2 example_reserved = Some (Inr f)
      \<and> is_resv (op_objs f ! 1) \<and> oy_attribute_set (op_yaml (op_objs f ! 1)) = None
      \<and> op_name (op_objs f ! 1) \<in> fst ` set (msgs f) \<and> 1 \<notin> snd ` set (ops f)
      \<and> map_of (msgs f) (op_name (op_objs f ! 1)) = Some 1)
   \<and> (\<exists>f. SpecFamily_init 2 example_reused_name = Some (Inr f)
      \<and> is_resv (op_objs f ! 0) \<and> oy_attribute_set (op_yaml (op_objs f ! 0)) \<noteq> None
      \<and> op_name (op_objs f ! 1) = op_name (op_objs f ! 0)
      \<and> map_of (msgs f) (op_name (op_objs f ! 0)) \<noteq> Some 0
      \<and> map_of (ops f) (op_name (op_objs f ! 0)) \<noteq> Some 0)"
proof -
  have "case SpecFamily_init 2 example_reserved of
     Some (Inr f) \<Rightarrow> length (op_objs f) = 2 \<and> is_resv (op_objs f ! 1)
       \<and> oy_attribute_set (op_yaml (op_objs f ! 1)) = None
   | _ \<Rightarrow> False"
    by code_simp
  then obtain f where f: "SpecFamily_init 2 example_reserved = Some (Inr f)"
    and l: "length (op_objs f) = 2"
    and p: "is_resv (op_objs f ! 1)" "oy_attribute_set (op_yaml (op_objs f ! 1)) = None"
    by (auto split: option.splits sum.splits)
  from l have b: "1 < length (op_objs f)" by simp
  note t = reserved_in_catalogs[OF f b p(1)]
  have t1: "op_name (op_objs f ! 1) \<in> fst ` set (msgs f)" by (rule t[THEN conjunct1])
  have t3: "1 \<notin> snd ` set (ops f)"
    by (rule t[THEN conjunct2, THEN conjunct2, THEN conjunct1, rule_format, OF p(2)])
  have "\<forall>c. 1 < c \<and> c < length (op_objs f)
          \<longrightarrow> op_name (op_objs f ! c) \<noteq> op_name (op_objs f ! 1)"
    using l by auto
  then have t2: "map_of (msgs f) (op_name (op_objs f ! 1)) = Some 1"
    using t[THEN conjunct2, THEN conjunct1] by simp
  have first: "\<exists>f. SpecFamily_init 2 example_reserved = Some (Inr f)
      \<and> is_resv (op_objs f ! 1) \<and> oy_attribute_set (op_yaml (op_objs f ! 1)) = None
      \<and> op_name (op_objs f ! 1) \<in> fst ` set (msgs f) \<and> 1 \<notin> snd ` set (ops f)
      \<and> map_of (msgs f) (op_name (op_objs f ! 1)) = Some 1"
    by (rule exI[of _ f]) (intro conjI f p t1 t3 t2)
  have "case SpecFamily_init 2 example_reused_name of
     Some (Inr f) \<Rightarrow> length (op_objs f) = 2 \<and> is_resv (op_objs f ! 0)
       \<and> oy_attribute_set (op_yaml (op_objs f ! 0)) \<noteq> None
       \<and> op_name (op_objs f ! 1) = op_name (op_objs f ! 0)
   | _ \<Rightarrow> False"
    by code_simp
  then obtain g where g: "SpecFamily_init 2 example_reused_name = Some (Inr g)"
    and lg: "length (op_objs g) = 2"
    and q: "is_resv (op_objs g ! 0)" "oy_attribute_set (op_yaml (op_objs g ! 0)) \<noteq> None"
       "op_name (op_objs g ! 1) = op_name (op_objs g ! 0)"
    by (auto split: option.splits sum.splits)
  from lg have bg: "0 < length (op_objs g)" by simp
  note u = reserved_in_catalogs[OF g bg q(1)]
  have "\<not> (\<forall>c. 0 < c \<and> c < length (op_objs g)
          \<longrightarrow> op_name (op_objs g ! c) \<noteq> op_name (op_objs g ! 0))"
  proof
    assume "\<forall>c. 0 < c \<and> c < length (op_objs g)
          \<longrightarrow> op_name (op_objs g ! c) \<noteq> op_name (op_objs g ! 0)"
    from this[rule_format, of 1] lg q(3) show False by simp
  qed
  then have u2: "map_of (msgs g) (op_name (op_objs g ! 0)) \<noteq> Some 0"
    using u[THEN conjunct2, THEN conjunct1] by simp
  then have u4: "map_of (ops g) (op_name (op_objs g ! 0)) \<noteq> Some 0"
    using u[THEN conjunct2, THEN conjunct2, THEN conjunct2, rule_format, OF q(2)] by simp
  have second: "\<exists>f. SpecFamily_init 2 example_reused_name = Some (Inr f)
      \<and> is_resv (op_objs f ! 0) \<and> oy_attribute_set (op_yaml (op_objs f ! 0)) \<noteq> None
      \<and> op_name (op_objs f ! 1) = op_name (op_objs f ! 0)
      \<and> map_of (msgs f) (op_name (op_objs f ! 0)) \<noteq> Some 0
      \<and> map_of (ops f) (op_name (op_objs f ! 0)) \<noteq> Some 0"
    by (rule exI[of _ g]) (intro conjI g q u2 u4)
  from first second show ?thesis by (rule conjI)
qed

theorem reserved_in_catalogs_counterexample:
  "case SpecFamily_init 2 example_reserved of
     Some (Inr f) \<Rightarrow> is_resv (op_objs f ! 0) \<and> op_name (op_objs f ! 0) = ''R''
       \<and> map_of (msgs f) ''R'' = Some 0 \<and> map_of (ops f) ''R'' = Some 0
   | _ \<Rightarrow> False"
  by code_simp



text \<open>
  C10. When the selector is neither \<open>unified\<close> nor \<open>directional\<close>, the resolution step
  of the family ends normally with \<open>msgs\<close>, \<open>req_by_value\<close>, \<open>rsp_by_value\<close> and
  \<open>ops\<close> empty, and the load returns a family in which they are empty and which has no
  operation.
\<close>

theorem unknown_model_ignored:
  assumes m: "enum_model (operations spec) = Some m"
    and u: "m \<noteq> ''unified''" and d: "m \<noteq> ''directional''"
  shows "SpecFamily_resolve ((init_family spec)\<lparr>resolution_list := []\<rparr>)
           = (Normal, family_resolved spec)
       \<and> msgs (family_resolved spec) = [] \<and> req_by_value (family_resolved spec) = []
       \<and> rsp_by_value (family_resolved spec) = [] \<and> ops (family_resolved spec) = []
       \<and> (\<exists>f. (\<forall>n. SpecFamily_init (Suc (Suc n)) spec = Some (Inr f))
              \<and> msgs f = [] \<and> req_by_value f = [] \<and> rsp_by_value f = [] \<and> ops f = []
              \<and> op_objs f = [])"
proof -
  let ?F = "family_resolved spec"
  have ok: "parse_ok (operations spec)" using m d by (simp add: parse_ok_def)
  have reg: "registered_ops (operations spec) = []"
    using m u d by (simp add: registered_ops_def)
  have ms: "msgs ?F = []" by (simp add: family_resolved_msgs[OF ok] reg)
  have cat: "ops ?F = []" "req_by_value ?F = []" "rsp_by_value ?F = []"
    by (simp_all add: family_resolved_ops[OF ok] ms)
  have len: "length (op_objs ?F) = 0" by (simp add: family_resolved_length[OF ok] reg)
  have nm: "\<forall>e\<in>set (resolution_list ?F). elem_outcome e ?F = Normal"
    by (simp add: family_resolved_list[OF ok] reg set_elems_outcome)
  from load_all_normal[OF ok nm] obtain f where
    f: "\<forall>n. SpecFamily_init (Suc (Suc n)) spec = Some (Inr f)" by blast
  then have "SpecFamily_init (Suc (Suc 0)) spec = Some (Inr f)" by blast
  from load_success(2)[OF this] have fr: "same_frame ?F f" .
  have "msgs f = [] \<and> req_by_value f = [] \<and> rsp_by_value f = [] \<and> ops f = [] \<and> op_objs f = []"
    using same_frame_fields[OF fr] ms cat len by simp
  with f have "\<exists>f. (\<forall>n. SpecFamily_init (Suc (Suc n)) spec = Some (Inr f))
              \<and> msgs f = [] \<and> req_by_value f = [] \<and> rsp_by_value f = [] \<and> ops f = []
              \<and> op_objs f = []"
    by (intro exI[of _ f]) simp
  with family_resolve_init[OF ok] ms cat show ?thesis by (intro conjI)
qed

theorem unknown_model_ignored_witness:
  "ops_list (operations example_unknown_model) \<noteq> []
   \<and> (\<exists>f. SpecFamily_init 2 example_unknown_model = Some (Inr f)
          \<and> msgs f = [] \<and> req_by_value f = [] \<and> rsp_by_value f = [] \<and> ops f = [])"
proof -
  have m: "enum_model (operations example_unknown_model) = Some ''per-direction''"
    by (simp add: example_unknown_model_def spec_of_def)
  have l: "ops_list (operations example_unknown_model) \<noteq> []"
    by (simp add: example_unknown_model_def spec_of_def)
  from unknown_model_ignored[OF m] obtain f where
    "\<forall>n. SpecFamily_init (Suc (Suc n)) example_unknown_model = Some (Inr f)"
    "msgs f = []" "req_by_value f = []" "rsp_by_value f = []" "ops f = []"
    by auto
  then have "SpecFamily_init 2 example_unknown_model = Some (Inr f)
          \<and> msgs f = [] \<and> req_by_value f = [] \<and> rsp_by_value f = [] \<and> ops f = []"
    by (simp add: numeral_2_eq_2)
  then have "\<exists>f. SpecFamily_init 2 example_unknown_model = Some (Inr f)
          \<and> msgs f = [] \<and> req_by_value f = [] \<and> rsp_by_value f = [] \<and> ops f = []"
    by (rule exI)
  with l show ?thesis by (intro conjI)
qed

end
